theory Spec2Isabelle
  imports Main
begin

section \<open>Constants and data model (dm-openssd.h)\<close>

text \<open>
  Addresses (\<open>sector_t\<close>, an unsigned 64-bit integer) and the unsigned counters of the
  driver are natural numbers; where the C arithmetic can wrap, the reduction modulo the
  width is written out. A pointer to a block is the block's \<open>id\<close>, \<open>NULL\<close> is \<open>None\<close>.
\<close>

definition EXPOSED_PAGE_SIZE :: nat where
  "EXPOSED_PAGE_SIZE = 4096"

definition FLASH_PAGE_SIZE :: nat where
  "FLASH_PAGE_SIZE = 4096"

definition NR_HOST_PAGES_IN_FLASH_PAGE :: nat where
  "NR_HOST_PAGES_IN_FLASH_PAGE = FLASH_PAGE_SIZE div EXPOSED_PAGE_SIZE"

definition NR_PHY_IN_LOG :: nat where
  "NR_PHY_IN_LOG = EXPOSED_PAGE_SIZE div 512"

text \<open>\<open>#define LTOP_EMPTY -1\<close>, read as a \<open>sector_t\<close>.\<close>

definition LTOP_EMPTY :: nat where
  "LTOP_EMPTY = 2 ^ 64 - 1"

text \<open>
  \<open>struct nvm_block\<close>: the allocation cursor, the invalid-page bitmap (bit \<open>i\<close> is set
  iff \<open>i \<in> invalid_pages\<close>) with its counter, and the GC bookkeeping.
\<close>

record nvm_block =
  next_page :: nat
  next_offset :: nat
  nr_invalid_pages :: nat
  invalid_pages :: "nat set"
  has_data :: bool
  gc_running :: nat
  gc_locked :: bool
  ref_count :: nat

text \<open>\<open>struct nvm_addr\<close>: an entry of a translation map.\<close>

record nvm_addr =
  addr :: nat
  block :: "nat option"

text \<open>
  \<open>struct bio\<close>, as far as the driver reads and writes it: start sector, size in bytes,
  direction, target device, the data buffer, and the status handed to \<open>bio_endio\<close>
  (\<open>None\<close> while the bio has not been ended).
\<close>

record bio =
  bi_sector :: nat
  bi_size :: nat
  bi_write :: bool
  bi_bdev :: nat
  bi_data :: "nat list"
  bi_end :: "int option"

text \<open>
  \<open>struct nvm_pool\<close>: the counters, the priority list, the serialisation flag and the
  bios waiting for the pool.
\<close>

record nvm_pool =
  nr_blocks :: nat
  nr_free_blocks :: nat
  prio_list :: "nat list"
  is_active :: nat
  waiting_bios :: "bio list"

text \<open>
  \<open>struct openssd\<close> / \<open>struct nvm_stor\<close>: configuration, the two translation tables,
  the shadow table of the latency engine, and the arrays of blocks and pools.
  \<open>pool_serialize\<close> is the bit \<open>NVM_OPT_POOL_SERIALIZE\<close> of \<open>config.flags\<close>,
  \<open>dev_bdev\<close> the backing device \<open>dev->bdev\<close>. Three fields record effects on the
  outside: \<open>warnings\<close> counts the \<open>WARN_ON\<close>s that fired, \<open>gc_queue\<close> is the work queue
  \<open>kgc_wq\<close> (blocks whose relocation job has been queued), \<open>dev_queue\<close> the bios handed
  to \<open>submit_bio\<close>, \<open>gc_kicks\<close> the calls of \<open>nvm_gc_kick\<close>.
\<close>

record nvm_stor =
  nr_pages :: nat
  nr_pools :: nat
  nr_blks_per_pool :: nat
  nr_pages_per_blk :: nat
  nr_host_pages_in_blk :: nat
  nr_aps_per_pool :: nat
  pool_serialize :: bool
  dev_bdev :: nat
  trans_map :: "nat \<Rightarrow> nvm_addr"
  rev_trans_map :: "nat \<Rightarrow> nat"
  shadow_map :: "nat \<Rightarrow> nvm_addr"
  blocks :: "nat \<Rightarrow> nvm_block"
  pools :: "nat \<Rightarrow> nvm_pool"
  warnings :: nat
  gc_queue :: "nat list"
  dev_queue :: "bio list"
  gc_kicks :: nat

text \<open>
  What stops a function: a \<open>BUG_ON\<close> that fires, a division by zero, an array access
  outside the table.
\<close>

datatype fault = BUG | DIV_ZERO | OUT_OF_BOUNDS | NULL_DEREF

section \<open>Block helpers (dm-openssd.h)\<close>

text \<open>
  \<open>block_is_full\<close>: the comparison is made in \<open>unsigned int\<close>, so the left-hand side
  is reduced modulo \<open>2 ^ 32\<close>.
\<close>

definition block_is_full :: "nvm_stor \<Rightarrow> nvm_block \<Rightarrow> bool" where
  "block_is_full os blk \<longleftrightarrow>
     (next_page blk * NR_HOST_PAGES_IN_FLASH_PAGE + next_offset blk) mod 2 ^ 32
       = nr_host_pages_in_blk os"

text \<open>
  \<open>block_to_addr\<close>: \<open>block->id * os->nr_host_pages_in_blk\<close> is a product of two
  \<open>unsigned int\<close>s, widened to \<open>sector_t\<close> after the multiplication.
\<close>

definition block_to_addr :: "nvm_stor \<Rightarrow> nat \<Rightarrow> nat" where
  "block_to_addr os bid = (bid * nr_host_pages_in_blk os) mod 2 ^ 32"

text \<open>
  \<open>page_is_fast(pagenr, os)\<close>; the second argument here is \<open>os->nr_pages_per_blk\<close>, an
  \<open>int\<close>. In \<open>pagenr >= os->nr_pages_per_blk - 4\<close> the right-hand side is computed in
  \<open>int\<close> and converted to \<open>unsigned int\<close> for the comparison.
\<close>

definition page_is_fast :: "nat \<Rightarrow> int \<Rightarrow> bool" where
  "page_is_fast pagenr K =
     (if pagenr < 4 then True
      else if pagenr \<ge> nat ((K - 4) mod 2 ^ 32) then False
      else (let p = (pagenr - 4) mod 4 in p = 2 \<or> p = 3))"

definition physical_to_slot :: "nvm_stor \<Rightarrow> nat \<Rightarrow> nat" where
  "physical_to_slot os phys =
     (phys mod (nr_pages_per_blk os * NR_HOST_PAGES_IN_FLASH_PAGE))
       div NR_HOST_PAGES_IN_FLASH_PAGE"

section \<open>Mapping update (dm-openssd-core.c)\<close>

text \<open>
  \<open>test_and_set_bit\<close> followed by the counter increment, on block \<open>b\<close> of the store;
  a bit that was already set fires the \<open>WARN_ON\<close> and is counted all the same. The
  counter \<open>nr_invalid_pages\<close> is an \<open>unsigned int\<close>, and \<open>++\<close> wraps around.
\<close>

definition mark_invalid :: "nvm_stor \<Rightarrow> nat \<Rightarrow> nat \<Rightarrow> nvm_stor" where
  "mark_invalid os b page_offset =
     (let blk = blocks os b;
          w = (if page_offset \<in> invalid_pages blk then warnings os + 1 else warnings os)
      in os\<lparr>blocks := (blocks os)(b := blk\<lparr>nr_invalid_pages := (nr_invalid_pages blk + 1) mod 2 ^ 32,
                                                invalid_pages := insert page_offset (invalid_pages blk)\<rparr>),
             warnings := w\<rparr>)"

definition openssd_update_map_generic ::
  "nvm_stor \<Rightarrow> nat \<Rightarrow> nat \<Rightarrow> nat option \<Rightarrow> fault + nvm_stor" where
  "openssd_update_map_generic os l_addr p_addr p_block =
     (if l_addr \<ge> nr_pages os \<or> p_addr \<ge> nr_pages os then Inr os
      else if l_addr \<ge> nr_pages os then Inl BUG
      else if p_addr \<ge> nr_pages os then Inl BUG
      else
        (let l = trans_map os l_addr in
         case (case block l of
                 None \<Rightarrow> Inr os
               | Some b \<Rightarrow>
                   if nr_host_pages_in_blk os = 0 then Inl DIV_ZERO
                   else Inr (mark_invalid os b (addr l mod nr_host_pages_in_blk os))) of
           Inl e \<Rightarrow> Inl e
         | Inr os1 \<Rightarrow>
             Inr (os1\<lparr>trans_map := (trans_map os1)(l_addr := \<lparr>addr = p_addr, block = p_block\<rparr>),
                      rev_trans_map := (rev_trans_map os1)(p_addr := l_addr)\<rparr>)))"

section \<open>Page allocation (dm-openssd-core.c)\<close>

text \<open>
  \<open>__openssd_alloc_phys_addr(block, req_fast)\<close> returns the address and the store with
  the block's cursor advanced; \<open>LTOP_EMPTY\<close> leaves the store as it is. \<open>next_page\<close> is
  an \<open>unsigned int\<close> (so is its product with the constant), \<open>next_offset\<close> an
  \<open>unsigned char\<close>, the address a \<open>sector_t\<close>. The hook
  \<open>os->alloc_phys_addr\<close> is \<open>NULL\<close> outside pack mode, and the pack hook touches only
  the append point of the block, which this store does not carry.
\<close>

definition openssd_alloc_phys_addr_fast :: "nvm_stor \<Rightarrow> nat \<Rightarrow> bool \<Rightarrow> nat \<times> nvm_stor" where
  "openssd_alloc_phys_addr_fast os bid req_fast =
     (let blk = blocks os bid in
      if block_is_full os blk then (LTOP_EMPTY, os)
      else if next_offset blk = NR_HOST_PAGES_IN_FLASH_PAGE \<and> req_fast
              \<and> \<not> page_is_fast ((next_page blk + 1) mod 2 ^ 32) (int (nr_pages_per_blk os))
        then (LTOP_EMPTY, os)
      else
        (let blk1 = (if next_offset blk = NR_HOST_PAGES_IN_FLASH_PAGE
                     then blk\<lparr>next_page := (next_page blk + 1) mod 2 ^ 32, next_offset := 0\<rparr>
                     else blk);
             a = (block_to_addr os bid + (next_page blk1 * NR_HOST_PAGES_IN_FLASH_PAGE) mod 2 ^ 32
                    + next_offset blk1) mod 2 ^ 64;
             blk2 = blk1\<lparr>next_offset := (next_offset blk1 + 1) mod 256\<rparr>
         in (a, os\<lparr>blocks := (blocks os)(bid := blk2)\<rparr>)))"

definition openssd_alloc_phys_addr :: "nvm_stor \<Rightarrow> nat \<Rightarrow> nat \<times> nvm_stor" where
  "openssd_alloc_phys_addr os bid = openssd_alloc_phys_addr_fast os bid False"

text \<open>
  \<open>bitmap_full(map, n)\<close> and \<open>bitmap_zero(map, n)\<close>; the latter clears whole
  \<open>unsigned long\<close>s, that is the bits below \<open>n\<close> rounded up to a multiple of 64.
\<close>

definition bitmap_full :: "nat set \<Rightarrow> nat \<Rightarrow> bool" where
  "bitmap_full m n \<longleftrightarrow> (\<forall>i \<in> set [0..<n]. i \<in> m)"

definition bitmap_zero :: "nat set \<Rightarrow> nat \<Rightarrow> nat set" where
  "bitmap_zero m n = {i \<in> m. 64 * ((n + 63) div 64) \<le> i}"

text \<open>
  \<open>openssd_reset_block\<close>: a block that has a data buffer gets its bitmap cleared (with a
  warning when the bitmap was not full); the cursor and the counter are cleared, and
  \<open>percpu_ref_init\<close> starts the reference count at one.
\<close>

definition openssd_reset_block :: "nvm_stor \<Rightarrow> nat \<Rightarrow> nvm_stor" where
  "openssd_reset_block os bid =
     (let blk = blocks os bid;
          w = (if has_data blk \<and> \<not> bitmap_full (invalid_pages blk) (nr_host_pages_in_blk os)
               then warnings os + 1 else warnings os);
          blk1 = (if has_data blk
                  then blk\<lparr>invalid_pages := bitmap_zero (invalid_pages blk) (nr_host_pages_in_blk os)\<rparr>
                  else blk)
      in os\<lparr>blocks := (blocks os)(bid := blk1\<lparr>next_page := 0, next_offset := 0,
                                                 nr_invalid_pages := 0, ref_count := 1\<rparr>),
            warnings := w\<rparr>)"

section \<open>Mapping update and allocation of the request-based driver (vsl.c)\<close>

text \<open>
  \<open>invalidate_block_page(s, p)\<close>: sets the bit of the page in the bitmap of \<open>p->block\<close>
  and counts it; the offset is taken modulo \<open>nr_pages_per_blk\<close>.
\<close>

definition invalidate_block_page :: "nvm_stor \<Rightarrow> nvm_addr \<Rightarrow> fault + nvm_stor" where
  "invalidate_block_page s p =
     (case block p of
        None \<Rightarrow> Inl NULL_DEREF
      | Some b \<Rightarrow>
          if nr_pages_per_blk s = 0 then Inl DIV_ZERO
          else Inr (mark_invalid s b (addr p mod nr_pages_per_blk s)))"

text \<open>
  \<open>nvm_update_map(s, l_addr, p, is_gc)\<close>. The value of \<open>LTOP_POISON\<close> is defined in a
  header that is not part of the sources at hand, so it is the parameter \<open>poison\<close>.
  \<open>is_gc\<close> is not read by the function.
\<close>

definition nvm_update_map :: "nat \<Rightarrow> nvm_stor \<Rightarrow> nat \<Rightarrow> nvm_addr \<Rightarrow> fault + nvm_stor" where
  "nvm_update_map poison s l_addr p =
     (if l_addr \<ge> nr_pages s then Inl BUG
      else if addr p \<ge> nr_pages s then Inl BUG
      else
        (let gp = trans_map s l_addr in
         case (if block gp \<noteq> None
               then (case invalidate_block_page s gp of
                       Inl e \<Rightarrow> Inl e
                     | Inr s' \<Rightarrow>
                         if addr gp \<ge> nr_pages s then Inl OUT_OF_BOUNDS
                         else Inr (s'\<lparr>rev_trans_map := (rev_trans_map s')(addr gp := poison)\<rparr>))
               else Inr s) of
           Inl e \<Rightarrow> Inl e
         | Inr s1 \<Rightarrow>
             Inr (s1\<lparr>trans_map := (trans_map s1)(l_addr := \<lparr>addr = addr p, block = block p\<rparr>),
                     rev_trans_map := (rev_trans_map s1)(addr p := l_addr)\<rparr>)))"

text \<open>
  \<open>nvm_reset_block\<close>: clears the bitmap, the cursor, the counter and \<open>gc_running\<close>.
\<close>

definition nvm_reset_block :: "nvm_stor \<Rightarrow> nat \<Rightarrow> nvm_stor" where
  "nvm_reset_block s bid =
     s\<lparr>blocks := (blocks s)(bid := (blocks s bid)
          \<lparr>next_page := 0, nr_invalid_pages := 0,
           invalid_pages := bitmap_zero (invalid_pages (blocks s bid)) (nr_pages_per_blk s),
           gc_running := 0\<rparr>)\<rparr>"

text \<open>
  Modelled from the spec: \<open>block_is_full\<close> of the request-based driver, whose header is
  not among the sources: "\<open>block_is_full(block)\<close>: \<open>next_page == K\<close> (flash page
  granularity)".
\<close>

definition nvm_block_is_full :: "nvm_stor \<Rightarrow> nvm_block \<Rightarrow> bool" where
  "nvm_block_is_full s blk \<longleftrightarrow> next_page blk = nr_pages_per_blk s"

text \<open>
  \<open>nvm_alloc_phys_addr(block)\<close>; the first address of a block is computed as
  \<open>block_to_addr\<close> of dm-openssd.h does.
\<close>

definition nvm_alloc_phys_addr :: "nvm_stor \<Rightarrow> nat \<Rightarrow> nat \<times> nvm_stor" where
  "nvm_alloc_phys_addr s bid =
     (let blk = blocks s bid in
      if nvm_block_is_full s blk then (LTOP_EMPTY, s)
      else ((block_to_addr s bid + next_page blk) mod 2 ^ 64,
            s\<lparr>blocks := (blocks s)(bid := blk\<lparr>next_page := (next_page blk + 1) mod 2 ^ 32\<rparr>)\<rparr>))"

section \<open>Lookup (dm-openssd-core.c and the latency engine)\<close>

datatype map_id = PRIMARY | SHADOW

fun map_of_id :: "nvm_stor \<Rightarrow> map_id \<Rightarrow> nat \<Rightarrow> nvm_addr" where
  "map_of_id os PRIMARY = trans_map os"
| "map_of_id os SHADOW = shadow_map os"

text \<open>
  Modelled from the spec: \<open>openssd_get_block\<close>, which is not among the sources: "take a
  block reference (incrementing \<open>ref_count\<close>)".
\<close>

definition openssd_get_block :: "nvm_stor \<Rightarrow> nat \<Rightarrow> nvm_stor" where
  "openssd_get_block os b =
     os\<lparr>blocks := (blocks os)(b := (blocks os b)\<lparr>ref_count := (ref_count (blocks os b) + 1) mod 2 ^ 32\<rparr>)\<rparr>"

text \<open>
  The \<open>while (1)\<close> loop of \<open>openssd_lookup_ltop\<close>, on the table \<open>m\<close>. A lookup returns a
  pointer into a table: here the table and the index. While the block's \<open>gc_lock\<close> is held
  the loop calls \<open>schedule()\<close> and tries again; nothing in a sequential run releases the
  lock, so the loop does not return then (\<open>None\<close>).
\<close>

partial_function (option) lookup_wait ::
  "nvm_stor \<Rightarrow> map_id \<Rightarrow> nat \<Rightarrow> ((map_id \<times> nat) \<times> nvm_stor) option" where
  "lookup_wait os m l =
     (case block (map_of_id os m l) of
        None \<Rightarrow> Some ((m, l), os)
      | Some b \<Rightarrow>
          if \<not> gc_locked (blocks os b) then Some ((m, l), openssd_get_block os b)
          else lookup_wait os m l)"

definition openssd_lookup_ltop ::
  "nvm_stor \<Rightarrow> nat \<Rightarrow> (fault + (map_id \<times> nat) \<times> nvm_stor) option" where
  "openssd_lookup_ltop os l_addr =
     (if \<not> l_addr < nr_pages os then Some (Inl BUG)
      else map_option Inr (lookup_wait os PRIMARY l_addr))"

text \<open>
  Modelled from the spec: \<open>openssd_lookup_ltop_map(os, l_addr, l2p_map)\<close>, declared in
  dm-openssd.h and defined in no source file at hand: the lookup of \<open>openssd_lookup_ltop\<close>
  ("spin-wait until the entry's block is not currently being GC-relocated; then take a
  block reference and return; an empty entry is returned directly without a reference")
  on the table given.
\<close>

definition openssd_lookup_ltop_map ::
  "nvm_stor \<Rightarrow> nat \<Rightarrow> map_id \<Rightarrow> (fault + (map_id \<times> nat) \<times> nvm_stor) option" where
  "openssd_lookup_ltop_map os l_addr m =
     (if \<not> l_addr < nr_pages os then Some (Inl BUG)
      else map_option Inr (lookup_wait os m l_addr))"

text \<open>
  \<open>openssd_latency_lookup_ltop\<close>. \<open>pool_idx\<close> is an \<open>int\<close>: the quotient is cut to 32 bits,
  and an index that is negative or not below \<open>nr_pools\<close> reads outside \<open>os->pools\<close>.
\<close>

definition openssd_latency_lookup_ltop ::
  "nvm_stor \<Rightarrow> nat \<Rightarrow> (fault + (map_id \<times> nat) \<times> nvm_stor) option" where
  "openssd_latency_lookup_ltop os logical_addr =
     (if \<not> logical_addr < nr_pages os then Some (Inl BUG)
      else if addr (shadow_map os logical_addr) = LTOP_EMPTY
        then openssd_lookup_ltop os logical_addr
      else if nr_pools os = 0 \<or> nr_pages os div nr_pools os = 0 then Some (Inl DIV_ZERO)
      else
        (let pool_idx = (addr (trans_map os logical_addr) div (nr_pages os div nr_pools os)) mod 2 ^ 32 in
         if pool_idx \<ge> 2 ^ 31 \<or> pool_idx \<ge> nr_pools os then Some (Inl OUT_OF_BOUNDS)
         else if is_active (pools os pool_idx) \<noteq> 0
           then openssd_lookup_ltop_map os logical_addr SHADOW
         else openssd_lookup_ltop os logical_addr))"

section \<open>Read path\<close>

datatype dm_mapio = DM_MAPIO_SUBMITTED | DM_MAPIO_REMAPPED | DM_MAPIO_REQUEUE


definition bio_endio :: "bio \<Rightarrow> int \<Rightarrow> bio" where
  "bio_endio b err = b\<lparr>bi_end := Some err\<rparr>"







datatype blk_mq_rq_queue = BLK_MQ_RQ_QUEUE_OK | BLK_MQ_RQ_QUEUE_BUSY | BLK_MQ_RQ_QUEUE_ERROR




section \<open>Request entry of the device-mapper target (dm-openssd-mod.c)\<close>

definition bio_sectors :: "bio \<Rightarrow> nat" where
  "bio_sectors b = bi_size b div 512"

text \<open>\<open>bio_io_error\<close> ends the bio with \<open>-EIO\<close>.\<close>

definition bio_io_error :: "bio \<Rightarrow> bio" where
  "bio_io_error b = bio_endio b (- 5)"

text \<open>
  \<open>nvm_map\<close>. \<open>nvmd->write_bio\<close> and \<open>nvmd->read_bio\<close> are function pointers, here
  parameters. \<open>bi_sector\<close> is unsigned, so \<open>bio->bi_sector < 0\<close> never holds.
\<close>

definition nvm_map ::
  "(nvm_stor \<Rightarrow> bio \<Rightarrow> dm_mapio \<times> bio \<times> nvm_stor)
   \<Rightarrow> (nvm_stor \<Rightarrow> bio \<Rightarrow> dm_mapio \<times> bio \<times> nvm_stor)
   \<Rightarrow> nvm_stor \<Rightarrow> bio \<Rightarrow> dm_mapio \<times> bio \<times> nvm_stor" where
  "nvm_map write_bio read_bio nvmd bio =
     (if bi_sector bio div NR_PHY_IN_LOG \<ge> nr_pages nvmd
      then (DM_MAPIO_SUBMITTED, bio_io_error bio, nvmd)
      else
        (let bio1 = bio\<lparr>bi_bdev := dev_bdev nvmd\<rparr> in
         if bi_write bio1 then
           (if bio_sectors bio1 \<noteq> NR_PHY_IN_LOG then (DM_MAPIO_REQUEUE, bio1, nvmd)
            else write_bio nvmd bio1)
         else read_bio nvmd bio1))"

section \<open>Notions used in the statements\<close>

text \<open>The pool that holds the primary copy of a logical page, as the latency lookup computes it.\<close>

definition pool_idx_of :: "nvm_stor \<Rightarrow> nat \<Rightarrow> nat" where
  "pool_idx_of os l = addr (trans_map os l) div (nr_pages os div nr_pools os)"

text \<open>
  \<open>max_first f prio vs\<close>: the blocks \<open>vs\<close> are, one after the other, an entry of the list
  with the greatest, and non-zero, value of \<open>f\<close> among the entries that are left, each
  taken off the list when it is chosen.
\<close>

fun max_first :: "(nat \<Rightarrow> nat) \<Rightarrow> nat list \<Rightarrow> nat list \<Rightarrow> bool" where
  "max_first f prio [] = True"
| "max_first f prio (v # vs) =
     (v \<in> set prio \<and> f v \<noteq> 0 \<and> (\<forall>b \<in> set prio. f b \<le> f v) \<and> max_first f (remove1 v prio) vs)"






text \<open>
  Writes. A write of logical page \<open>l\<close> through an append point whose current block is \<open>b\<close>
  allocates the next page of \<open>b\<close> and updates the map, as \<open>openssd_alloc_map_ltop_rr\<close> does
  (the update is called with whatever the allocation returned, and ignores
  \<open>LTOP_EMPTY\<close>); in the request-based driver the update follows a successful allocation.
  The result is the address and the new store.
\<close>

definition openssd_write :: "nvm_stor \<Rightarrow> nat \<Rightarrow> nat \<Rightarrow> fault + nat \<times> nvm_stor" where
  "openssd_write os l b =
     (case openssd_alloc_phys_addr os b of
        (p, os1) \<Rightarrow>
          (case openssd_update_map_generic os1 l p (Some b) of
             Inl e \<Rightarrow> Inl e
           | Inr os2 \<Rightarrow> Inr (p, os2)))"

definition nvm_write :: "nat \<Rightarrow> nvm_stor \<Rightarrow> nat \<Rightarrow> nat \<Rightarrow> fault + nat \<times> nvm_stor" where
  "nvm_write poison s l b =
     (case nvm_alloc_phys_addr s b of
        (p, s1) \<Rightarrow>
          if p = LTOP_EMPTY then Inr (p, s1)
          else (case nvm_update_map poison s1 l \<lparr>addr = p, block = Some b\<rparr> of
                  Inl e \<Rightarrow> Inl e
                | Inr s2 \<Rightarrow> Inr (p, s2)))"

text \<open>
  What happens between two writes of a logical page: writes (of any logical page, from
  any block) and resets of blocks that are taken from the free list again after an erase.
\<close>

datatype event = Write nat nat | Reset nat

fun openssd_step :: "nvm_stor \<Rightarrow> event \<Rightarrow> fault + nvm_stor" where
  "openssd_step os (Write l b) =
     (case openssd_write os l b of Inl e \<Rightarrow> Inl e | Inr (p, os') \<Rightarrow> Inr os')"
| "openssd_step os (Reset b) = Inr (openssd_reset_block os b)"

fun openssd_run :: "nvm_stor \<Rightarrow> event list \<Rightarrow> fault + nvm_stor" where
  "openssd_run os [] = Inr os"
| "openssd_run os (e # es) =
     (case openssd_step os e of Inl x \<Rightarrow> Inl x | Inr os' \<Rightarrow> openssd_run os' es)"

fun nvm_step :: "nat \<Rightarrow> nvm_stor \<Rightarrow> event \<Rightarrow> fault + nvm_stor" where
  "nvm_step poison s (Write l b) =
     (case nvm_write poison s l b of Inl e \<Rightarrow> Inl e | Inr (p, s') \<Rightarrow> Inr s')"
| "nvm_step poison s (Reset b) = Inr (nvm_reset_block s b)"

fun nvm_run :: "nat \<Rightarrow> nvm_stor \<Rightarrow> event list \<Rightarrow> fault + nvm_stor" where
  "nvm_run poison s [] = Inr s"
| "nvm_run poison s (e # es) =
     (case nvm_step poison s e of Inl x \<Rightarrow> Inl x | Inr s' \<Rightarrow> nvm_run poison s' es)"

text \<open>
  The cursor of a block in host pages, and its well-formedness: the offset inside the
  flash page is at most \<open>H\<close> and the cursor is inside the block. \<open>valid_block\<close>: the pages
  of the block lie inside the device.
\<close>

definition cursor :: "nvm_stor \<Rightarrow> nat \<Rightarrow> nat" where
  "cursor os b = next_page (blocks os b) * NR_HOST_PAGES_IN_FLASH_PAGE + next_offset (blocks os b)"

definition cursor_ok :: "nvm_stor \<Rightarrow> nat \<Rightarrow> bool" where
  "cursor_ok os b \<longleftrightarrow>
     next_offset (blocks os b) \<le> NR_HOST_PAGES_IN_FLASH_PAGE \<and> cursor os b \<le> nr_host_pages_in_blk os"

definition nvm_cursor_ok :: "nvm_stor \<Rightarrow> nat \<Rightarrow> bool" where
  "nvm_cursor_ok s b \<longleftrightarrow> next_page (blocks s b) \<le> nr_pages_per_blk s"

definition valid_block :: "nvm_stor \<Rightarrow> nat \<Rightarrow> bool" where
  "valid_block os b \<longleftrightarrow> (b + 1) * nr_host_pages_in_blk os \<le> nr_pages os"













section \<open>Example configuration\<close>

text \<open>
  Two pools of four blocks of four pages (32 pages), as \<open>nvm_init\<close> leaves the tables:
  every translation entry is \<open>(LTOP_EMPTY, NULL)\<close>; the reverse table holds the filler
  \<open>0xDEADBEEF\<close> of \<open>vsl_stor_init\<close>.
\<close>

definition blk0 :: nvm_block where
  "blk0 = \<lparr>next_page = 0, next_offset = 0, nr_invalid_pages = 0, invalid_pages = {},
           has_data = False, gc_running = 0, gc_locked = False, ref_count = 1\<rparr>"

definition pool0 :: nvm_pool where
  "pool0 = \<lparr>nr_blocks = 4, nr_free_blocks = 4, prio_list = [], is_active = 0,
            waiting_bios = []\<rparr>"

definition stor0 :: nvm_stor where
  "stor0 = \<lparr>nr_pages = 32, nr_pools = 2, nr_blks_per_pool = 4, nr_pages_per_blk = 4,
            nr_host_pages_in_blk = 4, nr_aps_per_pool = 1, pool_serialize = False,
            dev_bdev = 1,
            trans_map = (\<lambda>_. \<lparr>addr = LTOP_EMPTY, block = None\<rparr>),
            rev_trans_map = (\<lambda>_. 0xDEADBEEF),
            shadow_map = (\<lambda>_. \<lparr>addr = LTOP_EMPTY, block = None\<rparr>),
            blocks = (\<lambda>_. blk0), pools = (\<lambda>_. pool0), warnings = 0, gc_queue = [],
            dev_queue = [], gc_kicks = 0\<rparr>"

text \<open>Block 2 of the example after four allocations: all four pages handed out.\<close>

definition stor_blk2_full :: nvm_stor where
  "stor_blk2_full =
     snd (openssd_alloc_phys_addr (snd (openssd_alloc_phys_addr
       (snd (openssd_alloc_phys_addr (snd (openssd_alloc_phys_addr stor0 2)) 2)) 2)) 2)"

text \<open>
  Logical page 3 written to physical page 9 of block 2 (pool 0), and pool 0 busy; then
  the same with a shadow copy on page 20 of block 5 (pool 1).
\<close>

definition stor_busy :: nvm_stor where
  "stor_busy = stor0\<lparr>trans_map := (trans_map stor0)(3 := \<lparr>addr = 9, block = Some 2\<rparr>),
                      rev_trans_map := (rev_trans_map stor0)(9 := 3),
                      pools := (pools stor0)(0 := pool0\<lparr>is_active := 1\<rparr>)\<rparr>"

definition stor_shadow :: nvm_stor where
  "stor_shadow = stor_busy\<lparr>shadow_map := (shadow_map stor_busy)(3 := \<lparr>addr = 20, block = Some 5\<rparr>),
                          rev_trans_map := (rev_trans_map stor_busy)(20 := 3)\<rparr>"


text \<open>
  Requests of the example: a write of sixteen sectors to logical page 2, the same write
  to a sector past the end of the device, a read of logical page 3 and a read of logical
  page 2, each four bytes of buffer long for brevity. \<open>submit_all\<close> is a strategy hook that
  hands every bio to the device; \<open>primary_lookup\<close> is the plain lookup in the primary
  table.
\<close>

definition bio_w16 :: bio where
  "bio_w16 = \<lparr>bi_sector = 16, bi_size = 8192, bi_write = True, bi_bdev = 0,
              bi_data = [1, 2, 3, 4], bi_end = None\<rparr>"

definition bio_far :: bio where
  "bio_far = \<lparr>bi_sector = 256, bi_size = 8192, bi_write = True, bi_bdev = 0,
              bi_data = [1, 2, 3, 4], bi_end = None\<rparr>"





definition submit_all :: "nvm_stor \<Rightarrow> bio \<Rightarrow> dm_mapio \<times> bio \<times> nvm_stor" where
  "submit_all os b = (DM_MAPIO_REMAPPED, b, os\<lparr>dev_queue := dev_queue os @ [b]\<rparr>)"



text \<open>
  The store after logical page 3 of \<open>stor_busy\<close> has been written again, to page 10 of
  block 2, by \<open>openssd_update_map_generic\<close>: page 9 is marked invalid in block 2.
\<close>

definition stor_rewritten :: nvm_stor where
  "stor_rewritten =
     stor_busy\<lparr>blocks := (blocks stor_busy)(2 := blk0\<lparr>nr_invalid_pages := 1, invalid_pages := {1}\<rparr>),
               trans_map := (trans_map stor_busy)(3 := \<lparr>addr = 10, block = Some 2\<rparr>),
               rev_trans_map := (rev_trans_map stor_busy)(10 := 3)\<rparr>"

text \<open>
  A pool of twenty blocks with one free block, and three full blocks on its priority
  list: block 2 with one invalid page, block 3 with three, block 4 with none.
\<close>

definition stor_gc :: nvm_stor where
  "stor_gc =
     stor0\<lparr>pools := (pools stor0)(0 := \<lparr>nr_blocks = 20, nr_free_blocks = 1, prio_list = [2, 3, 4],
                                         is_active = 0, waiting_bios = []\<rparr>),
           blocks := (blocks stor0)
             (2 := blk0\<lparr>next_page := 3, next_offset := 1, nr_invalid_pages := 1, invalid_pages := {0}\<rparr>,
              3 := blk0\<lparr>next_page := 3, next_offset := 1, nr_invalid_pages := 3,
                        invalid_pages := {0, 2, 3}\<rparr>,
              4 := blk0\<lparr>next_page := 3, next_offset := 1\<rparr>)\<rparr>"

text \<open>
  Two writes of logical page 4 through block 2 with other traffic in between (a write of
  page 5 through block 2, a write of page 6 through block 3, a reset of block 3): the
  stores after the first write, after the traffic and after the second write, in the
  device-mapper driver and in the request-based driver (with \<open>0xD3ADB33F\<close> for the poison).
\<close>

definition stor_w1 :: nvm_stor where
  "stor_w1 = snd (projr (openssd_write stor0 4 2))"

definition stor_w2 :: nvm_stor where
  "stor_w2 = projr (openssd_run stor_w1 [Write 5 2, Write 6 3, Reset 3])"

definition stor_w3 :: nvm_stor where
  "stor_w3 = snd (projr (openssd_write stor_w2 4 2))"

definition stor_n1 :: nvm_stor where
  "stor_n1 = snd (projr (nvm_write 0xD3ADB33F stor0 4 2))"

definition stor_n2 :: nvm_stor where
  "stor_n2 = projr (nvm_run 0xD3ADB33F stor_n1 [Write 5 2, Write 6 3, Reset 3])"

definition stor_n3 :: nvm_stor where
  "stor_n3 = snd (projr (nvm_write 0xD3ADB33F stor_n2 4 2))"





section \<open>Garbage collection: victim selection\<close>

definition block_max_invalid :: "nvm_stor \<Rightarrow> nat \<Rightarrow> nat \<Rightarrow> nat" where
  "block_max_invalid os a b =
     (if nr_invalid_pages (blocks os a) = nr_invalid_pages (blocks os b) then a
      else if nr_invalid_pages (blocks os a) < nr_invalid_pages (blocks os b) then b else a)"

text \<open>
  \<open>block_prio_find_max\<close>: starts from the first entry and walks the whole list, the first
  entry included.
\<close>

definition block_prio_find_max :: "nvm_stor \<Rightarrow> nat list \<Rightarrow> fault + nat" where
  "block_prio_find_max os prio =
     (case prio of
        [] \<Rightarrow> Inl BUG
      | x # xs \<Rightarrow> Inr (foldl (block_max_invalid os) x (x # xs)))"

text \<open>
  \<open>kref_put(&block->ref_count, nvm_block_release)\<close>: drops one reference (the counter is
  an \<open>atomic_t\<close>); the release function, which queues the relocation of the block on
  \<open>kgc_wq\<close>, runs when the counter reaches zero.
\<close>

definition kref_put :: "nvm_stor \<Rightarrow> nat \<Rightarrow> nvm_stor" where
  "kref_put os b =
     (let r = (ref_count (blocks os b) + 2 ^ 32 - 1) mod 2 ^ 32;
          os1 = os\<lparr>blocks := (blocks os)(b := (blocks os b)\<lparr>ref_count := r\<rparr>)\<rparr>
      in if r = 0 then os1\<lparr>gc_queue := gc_queue os1 @ [b]\<rparr> else os1)"

text \<open>
  The body of the \<open>while\<close> loop of \<open>nvm_gc_collect\<close> once block \<open>b\<close> of pool \<open>pid\<close> has been
  chosen: \<open>list_del_init\<close> takes the block's node out of the priority list, the two
  \<open>BUG_ON\<close>s require a full block that no other collection is running on, and
  \<open>kref_put\<close> drops the reference.
\<close>

definition gc_take_victim :: "nvm_stor \<Rightarrow> nat \<Rightarrow> nat \<Rightarrow> fault + nvm_stor" where
  "gc_take_victim os pid b =
     (let pool = pools os pid;
          os1 = os\<lparr>pools := (pools os)(pid := pool\<lparr>prio_list := remove1 b (prio_list pool)\<rparr>)\<rparr>
      in if \<not> block_is_full os1 (blocks os1 b) then Inl BUG
         else
           (let g = (gc_running (blocks os1 b) + 1) mod 2 ^ 32;
                os2 = os1\<lparr>blocks := (blocks os1)(b := (blocks os1 b)\<lparr>gc_running := g\<rparr>)\<rparr>
            in if g \<noteq> 1 then Inl BUG else Inr (kref_put os2 b)))"

text \<open>
  The \<open>while\<close> loop of \<open>nvm_gc_collect\<close> on pool \<open>pid\<close>. Beside the store it returns the
  blocks it selected, in the order of selection.
\<close>

function gc_collect_loop :: "nvm_stor \<Rightarrow> nat \<Rightarrow> nat \<Rightarrow> fault + (nat list \<times> nvm_stor)" where
  "gc_collect_loop os pid nr_blocks_need =
     (let pool = pools os pid in
      if nr_blocks_need > nr_free_blocks pool \<and> prio_list pool \<noteq> [] then
        (case block_prio_find_max os (prio_list pool) of
           Inl e \<Rightarrow> Inl e
         | Inr b \<Rightarrow>
             if nr_invalid_pages (blocks os b) = 0 then Inr ([], os)
             else
               (case gc_take_victim os pid b of
                  Inl e \<Rightarrow> Inl e
                | Inr os3 \<Rightarrow>
                    (case gc_collect_loop os3 pid nr_blocks_need of
                       Inl e \<Rightarrow> Inl e
                     | Inr (vs, os') \<Rightarrow> Inr (b # vs, os'))))
      else Inr ([], os))"
  by pat_completeness auto

termination gc_collect_loop
proof (relation "measure (\<lambda>(os, pid, need). length (prio_list (pools os pid)))")
  show "wf (measure (\<lambda>(os, pid, need). length (prio_list (pools os pid))))"
    by simp
next
  fix os :: nvm_stor and pid need :: nat and pool b os3
  assume a: "pool = pools os pid" "block_prio_find_max os (prio_list pool) = Inr b"
    "gc_take_victim os pid b = Inr os3"
  have mem: "foldl (block_max_invalid os) x xs \<in> insert x (set xs)" for x xs
    by (induction xs arbitrary: x) (auto simp: block_max_invalid_def)
  have "b \<in> set (prio_list pool)"
    using a(2) mem [of "hd (prio_list pool)" "prio_list pool"]
    by (auto simp: block_prio_find_max_def split: list.splits)
  then have "length (remove1 b (prio_list pool)) < length (prio_list pool)"
    by (simp add: length_remove1) (cases "prio_list pool"; simp)
  moreover have "prio_list (pools os3 pid) = remove1 b (prio_list pool)"
    using a(1,3) by (auto simp: gc_take_victim_def kref_put_def Let_def split: if_splits)
  ultimately show "((os3, pid, need), (os, pid, need))
      \<in> measure (\<lambda>(os, pid, need). length (prio_list (pools os pid)))"
    using a(1) by simp
qed

text \<open>
  \<open>nvm_gc_collect\<close> on pool \<open>pid\<close>: the need is a tenth of the pool's blocks. The counter
  \<open>next_collect_pool\<close> and the deferred work queued at the end are not carried by the
  store.
\<close>

definition nvm_gc_collect :: "nvm_stor \<Rightarrow> nat \<Rightarrow> fault + (nat list \<times> nvm_stor)" where
  "nvm_gc_collect os pid = gc_collect_loop os pid (nr_blocks (pools os pid) div 10)"

section \<open>Evaluation of the example\<close>

lemmas const_defs = NR_HOST_PAGES_IN_FLASH_PAGE_def FLASH_PAGE_SIZE_def EXPOSED_PAGE_SIZE_def
  NR_PHY_IN_LOG_def LTOP_EMPTY_def

lemma stor_blk2_full_block:
  "blocks stor_blk2_full 2 = blk0\<lparr>next_page := 3, next_offset := 1\<rparr>"
  by (simp add: stor_blk2_full_def openssd_alloc_phys_addr_def openssd_alloc_phys_addr_fast_def
      block_is_full_def block_to_addr_def stor0_def blk0_def const_defs Let_def)

lemma stor_blk2_full_other:
  "blocks stor_blk2_full 3 = blk0"
  by (simp add: stor_blk2_full_def openssd_alloc_phys_addr_def openssd_alloc_phys_addr_fast_def
      block_is_full_def block_to_addr_def stor0_def blk0_def const_defs Let_def)

lemma stor_blk2_full_config:
  "nr_host_pages_in_blk stor_blk2_full = 4" "nr_pages_per_blk stor_blk2_full = 4"
  by (simp_all add: stor_blk2_full_def openssd_alloc_phys_addr_def openssd_alloc_phys_addr_fast_def
      block_is_full_def block_to_addr_def stor0_def blk0_def const_defs Let_def)

section \<open>Block fullness\<close>

text \<open>
  C6, as the code has it. \<open>block_is_full\<close> compares the whole cursor, flash page and
  offset inside the flash page, with the number of host pages of the block: with
  \<open>nr_host_pages_in_blk = H * K\<close> and a cursor that fits an \<open>unsigned int\<close>, the block is
  full iff \<open>next_page * H + next_offset = K * H\<close>. Only at offset zero is that the same as
  \<open>next_page = K\<close>.
\<close>

theorem block_is_full_iff:
  assumes "nr_host_pages_in_blk os = NR_HOST_PAGES_IN_FLASH_PAGE * nr_pages_per_blk os"
    and "next_page blk * NR_HOST_PAGES_IN_FLASH_PAGE + next_offset blk < 2 ^ 32"
  shows "(block_is_full os blk \<longleftrightarrow>
            next_page blk * NR_HOST_PAGES_IN_FLASH_PAGE + next_offset blk
              = nr_pages_per_blk os * NR_HOST_PAGES_IN_FLASH_PAGE)
         \<and> (next_offset blk = 0 \<longrightarrow> (block_is_full os blk \<longleftrightarrow> next_page blk = nr_pages_per_blk os))"
  using assms by (auto simp: block_is_full_def const_defs)

theorem block_is_full_iff_witness:
  "nr_host_pages_in_blk stor_blk2_full = NR_HOST_PAGES_IN_FLASH_PAGE * nr_pages_per_blk stor_blk2_full
   \<and> next_page (blocks stor_blk2_full 2) * NR_HOST_PAGES_IN_FLASH_PAGE
       + next_offset (blocks stor_blk2_full 2) < 2 ^ 32
   \<and> block_is_full stor_blk2_full (blocks stor_blk2_full 2)
   \<and> next_page (blocks stor_blk2_full 2) * NR_HOST_PAGES_IN_FLASH_PAGE
       + next_offset (blocks stor_blk2_full 2)
       = nr_pages_per_blk stor_blk2_full * NR_HOST_PAGES_IN_FLASH_PAGE
   \<and> next_page (blocks stor_blk2_full 3) * NR_HOST_PAGES_IN_FLASH_PAGE
       + next_offset (blocks stor_blk2_full 3) < 2 ^ 32
   \<and> next_offset (blocks stor_blk2_full 3) = 0
   \<and> next_page (blocks stor_blk2_full 3) \<noteq> nr_pages_per_blk stor_blk2_full
   \<and> \<not> block_is_full stor_blk2_full (blocks stor_blk2_full 3)"
proof -
  have a: "nr_host_pages_in_blk stor_blk2_full
             = NR_HOST_PAGES_IN_FLASH_PAGE * nr_pages_per_blk stor_blk2_full"
    by (simp add: stor_blk2_full_config const_defs)
  have b: "next_page (blocks stor_blk2_full 2) * NR_HOST_PAGES_IN_FLASH_PAGE
             + next_offset (blocks stor_blk2_full 2) < 2 ^ 32"
    by (simp add: stor_blk2_full_block const_defs)
  have c: "next_page (blocks stor_blk2_full 2) * NR_HOST_PAGES_IN_FLASH_PAGE
             + next_offset (blocks stor_blk2_full 2)
             = nr_pages_per_blk stor_blk2_full * NR_HOST_PAGES_IN_FLASH_PAGE"
    by (simp add: stor_blk2_full_block stor_blk2_full_config const_defs)
  have d: "next_page (blocks stor_blk2_full 3) * NR_HOST_PAGES_IN_FLASH_PAGE
             + next_offset (blocks stor_blk2_full 3) < 2 ^ 32"
    and e: "next_offset (blocks stor_blk2_full 3) = 0"
    and f: "next_page (blocks stor_blk2_full 3) \<noteq> nr_pages_per_blk stor_blk2_full"
    by (simp_all add: stor_blk2_full_other stor_blk2_full_config blk0_def const_defs)
  from block_is_full_iff [OF a b] block_is_full_iff [OF a d] a b c d e f show ?thesis
    by blast
qed

text \<open>
  The claim as stated fails on the block that the allocator has just filled: after the
  four allocations of a four-page block the block is full, with \<open>next_page = 3\<close> and
  \<open>next_offset = 1\<close>.
\<close>

theorem block_is_full_counterexample:
  "block_is_full stor_blk2_full (blocks stor_blk2_full 2)
   \<and> next_page (blocks stor_blk2_full 2) * NR_HOST_PAGES_IN_FLASH_PAGE
       \<noteq> nr_pages_per_blk stor_blk2_full * NR_HOST_PAGES_IN_FLASH_PAGE
   \<and> next_page (blocks stor_blk2_full 2) \<noteq> nr_pages_per_blk stor_blk2_full"
  by (simp add: block_is_full_def stor_blk2_full_block stor_blk2_full_config const_defs)

section \<open>Fast pages\<close>

text \<open>
  C9, as the code has it. For a block of at least four pages, page \<open>p\<close> is fast iff
  \<open>p < 4\<close>, or \<open>p < K - 4\<close> and \<open>(p - 4) mod 4\<close> is 2 or 3; a page with \<open>p \<ge> K - 4\<close> that is
  not one of the first four is never fast.
\<close>

theorem page_is_fast_iff:
  assumes "4 \<le> K" and "K < 2 ^ 31"
  shows "(page_is_fast p K \<longleftrightarrow>
            p < 4 \<or> (int p < K - 4 \<and> ((p - 4) mod 4 = 2 \<or> (p - 4) mod 4 = 3)))
         \<and> (4 \<le> p \<and> K - 4 \<le> int p \<longrightarrow> \<not> page_is_fast p K)"
proof -
  have "0 \<le> K - 4" and "K - 4 < 2 ^ 32"
    using assms by simp_all
  then have m: "(K - 4) mod 2 ^ 32 = K - 4"
    by simp
  have n: "(nat (K - 4) \<le> p) = (K - 4 \<le> int p)"
    by linarith
  show ?thesis
    unfolding page_is_fast_def Let_def m n by auto
qed

theorem page_is_fast_iff_witness:
  "(4::int) \<le> 16 \<and> (16::int) < 2 ^ 31 \<and> page_is_fast 6 16 \<and> \<not> page_is_fast 13 16"
proof -
  have a: "(4::int) \<le> 16" and b: "(16::int) < 2 ^ 31"
    by simp_all
  from page_is_fast_iff [OF a b, of 6] page_is_fast_iff [OF a b, of 13] a b
  show ?thesis by simp
qed

text \<open>
  The claim as stated fails in two places: in a block of four pages, page 0 is at or
  above \<open>K - 4\<close> and fast; and for \<open>K < 4\<close> the bound \<open>K - 4\<close> wraps around as an unsigned
  number, so that page 6 of a two-page geometry passes for fast.
\<close>

theorem page_is_fast_counterexample:
  "page_is_fast 0 4 \<and> (4::int) - 4 \<le> int 0
   \<and> page_is_fast 6 2 \<and> \<not> ((6::nat) < 4 \<or> (int 6 < 2 - 4 \<and> (((6::nat) - 4) mod 4 = 2 \<or> ((6::nat) - 4) mod 4 = 3)))"
  by (simp add: page_is_fast_def)

section \<open>Mapping update outside the address range\<close>

text \<open>
  C10. \<open>openssd_update_map_generic\<close> with a logical or a physical address outside the
  table returns at once and leaves the whole store as it was: the maps, every bitmap and
  every counter. Whatever the arguments, neither \<open>BUG_ON\<close> after the guard fires.
\<close>

theorem update_map_generic_out_of_range:
  "(nr_pages os \<le> l_addr \<or> nr_pages os \<le> p_addr \<longrightarrow>
      openssd_update_map_generic os l_addr p_addr p_block = Inr os)
   \<and> openssd_update_map_generic os l_addr p_addr p_block \<noteq> Inl BUG"
  by (auto simp: openssd_update_map_generic_def Let_def split: option.splits sum.splits)

theorem update_map_generic_out_of_range_witness:
  "(nr_pages stor0 \<le> 40 \<or> nr_pages stor0 \<le> 3)
   \<and> openssd_update_map_generic stor0 40 3 (Some 0) = Inr stor0"
proof -
  have a: "nr_pages stor0 \<le> 40 \<or> nr_pages stor0 \<le> 3"
    by (simp add: stor0_def)
  from update_map_generic_out_of_range [of stor0 40 3 "Some 0"] a show ?thesis
    by blast
qed

section \<open>Lookup in latency mode\<close>

lemma lookup_wait_empty:
  "block (map_of_id os m l) = None \<Longrightarrow> lookup_wait os m l = Some ((m, l), os)"
  by (subst lookup_wait.simps) simp

lemma lookup_wait_unlocked:
  "block (map_of_id os m l) = Some b \<Longrightarrow> \<not> gc_locked (blocks os b) \<Longrightarrow>
   lookup_wait os m l = Some ((m, l), openssd_get_block os b)"
  by (subst lookup_wait.simps) simp

lemma lookup_wait_Some:
  assumes "lookup_wait os m l = Some r"
  shows "\<not> (\<exists>b. block (map_of_id os m l) = Some b \<and> gc_locked (blocks os b))"
proof (rule lookup_wait.raw_induct
    [where P = "\<lambda>os m l r. \<not> (\<exists>b. block (map_of_id os m l) = Some b \<and> gc_locked (blocks os b))"])
  show "lookup_wait os m l = Some r"
    by (rule assms)
next
  fix f os m l r
  assume "\<And>os m l r. f os m l = Some r \<Longrightarrow>
             \<not> (\<exists>b. block (map_of_id os m l) = Some b \<and> gc_locked (blocks os b))"
    and "(case block (map_of_id os m l) of None \<Rightarrow> Some ((m, l), os)
          | Some b \<Rightarrow> if \<not> gc_locked (blocks os b) then Some ((m, l), openssd_get_block os b)
                      else f os m l) = Some r"
  then show "\<not> (\<exists>b. block (map_of_id os m l) = Some b \<and> gc_locked (blocks os b))"
    by (auto split: option.splits if_splits)
qed

lemma lookup_wait_locked:
  assumes "block (map_of_id os m l) = Some b" and "gc_locked (blocks os b)"
  shows "lookup_wait os m l = None"
  using assms lookup_wait_Some [of os m l] by (cases "lookup_wait os m l") auto

lemma lookup_wait_ref:
  assumes "lookup_wait os m l = Some (r, os')"
  shows "r = (m, l)"
proof (cases "block (map_of_id os m l)")
  case None
  with assms show ?thesis
    by (simp add: lookup_wait_empty)
next
  case (Some b)
  with assms show ?thesis
    by (cases "gc_locked (blocks os b)") (simp_all add: lookup_wait_locked lookup_wait_unlocked)
qed

text \<open>
  C7, as the code has it. For an in-range logical address the latency lookup first tests
  the shadow entry: when it is empty (\<open>LTOP_EMPTY\<close>) the lookup is the primary lookup,
  whatever the state of the pool. Otherwise, with the pool index of the primary address
  inside the pool array, it is the lookup in the shadow table when that pool is active and
  the primary lookup when it is not. A primary lookup that returns, returns the primary
  entry, a shadow lookup the shadow entry; either returns when its entry is empty or its
  block is not held by the garbage collector.
\<close>

theorem latency_lookup_ltop_choice:
  assumes "l < nr_pages os"
  shows "(addr (shadow_map os l) = LTOP_EMPTY \<longrightarrow>
            openssd_latency_lookup_ltop os l = openssd_lookup_ltop os l)
       \<and> (addr (shadow_map os l) \<noteq> LTOP_EMPTY \<and> 0 < nr_pages os div nr_pools os
            \<and> pool_idx_of os l < nr_pools os \<and> nr_pools os < 2 ^ 31 \<longrightarrow>
            openssd_latency_lookup_ltop os l =
              (if is_active (pools os (pool_idx_of os l)) \<noteq> 0
               then openssd_lookup_ltop_map os l SHADOW else openssd_lookup_ltop os l))
       \<and> (\<forall>r os'. openssd_lookup_ltop os l = Some (Inr (r, os')) \<longrightarrow> r = (PRIMARY, l))
       \<and> (\<forall>r os'. openssd_lookup_ltop_map os l SHADOW = Some (Inr (r, os')) \<longrightarrow> r = (SHADOW, l))
       \<and> (block (trans_map os l) = None \<longrightarrow>
            openssd_lookup_ltop os l = Some (Inr ((PRIMARY, l), os)))
       \<and> (block (shadow_map os l) = None \<longrightarrow>
            openssd_lookup_ltop_map os l SHADOW = Some (Inr ((SHADOW, l), os)))
       \<and> (\<forall>b. block (trans_map os l) = Some b \<and> \<not> gc_locked (blocks os b) \<longrightarrow>
             openssd_lookup_ltop os l = Some (Inr ((PRIMARY, l), openssd_get_block os b)))
       \<and> (\<forall>b. block (shadow_map os l) = Some b \<and> \<not> gc_locked (blocks os b) \<longrightarrow>
             openssd_lookup_ltop_map os l SHADOW = Some (Inr ((SHADOW, l), openssd_get_block os b)))"
proof -
  have 1: "addr (shadow_map os l) = LTOP_EMPTY \<longrightarrow>
            openssd_latency_lookup_ltop os l = openssd_lookup_ltop os l"
    using assms by (simp add: openssd_latency_lookup_ltop_def)
  have 2: "addr (shadow_map os l) \<noteq> LTOP_EMPTY \<and> 0 < nr_pages os div nr_pools os
            \<and> pool_idx_of os l < nr_pools os \<and> nr_pools os < 2 ^ 31 \<longrightarrow>
            openssd_latency_lookup_ltop os l =
              (if is_active (pools os (pool_idx_of os l)) \<noteq> 0
               then openssd_lookup_ltop_map os l SHADOW else openssd_lookup_ltop os l)"
  proof (intro impI, elim conjE)
    assume a: "addr (shadow_map os l) \<noteq> LTOP_EMPTY" "0 < nr_pages os div nr_pools os"
      "pool_idx_of os l < nr_pools os" "nr_pools os < 2 ^ 31"
    have np: "nr_pools os \<noteq> 0"
      using a(3) by auto
    have small: "pool_idx_of os l < 2 ^ 31"
      using a(3,4) by simp
    then have "pool_idx_of os l < 2 ^ 32"
      by simp
    then have m: "pool_idx_of os l mod 2 ^ 32 = pool_idx_of os l"
      by simp
    show "openssd_latency_lookup_ltop os l =
              (if is_active (pools os (pool_idx_of os l)) \<noteq> 0
               then openssd_lookup_ltop_map os l SHADOW else openssd_lookup_ltop os l)"
      using assms a np small m
      by (simp add: openssd_latency_lookup_ltop_def Let_def pool_idx_of_def [symmetric]
          del: One_nat_def)
  qed
  have 3: "\<forall>r os'. openssd_lookup_ltop os l = Some (Inr (r, os')) \<longrightarrow> r = (PRIMARY, l)"
    using assms by (auto simp: openssd_lookup_ltop_def dest: lookup_wait_ref)
  have 4: "\<forall>r os'. openssd_lookup_ltop_map os l SHADOW = Some (Inr (r, os')) \<longrightarrow> r = (SHADOW, l)"
    using assms by (auto simp: openssd_lookup_ltop_map_def dest: lookup_wait_ref)
  have 5: "block (trans_map os l) = None \<longrightarrow>
            openssd_lookup_ltop os l = Some (Inr ((PRIMARY, l), os))"
    using assms by (simp add: openssd_lookup_ltop_def lookup_wait_empty)
  have 6: "block (shadow_map os l) = None \<longrightarrow>
            openssd_lookup_ltop_map os l SHADOW = Some (Inr ((SHADOW, l), os))"
    using assms by (simp add: openssd_lookup_ltop_map_def lookup_wait_empty)
  have 7: "\<forall>b. block (trans_map os l) = Some b \<and> \<not> gc_locked (blocks os b) \<longrightarrow>
             openssd_lookup_ltop os l = Some (Inr ((PRIMARY, l), openssd_get_block os b))"
    using assms by (simp add: openssd_lookup_ltop_def lookup_wait_unlocked)
  have 8: "\<forall>b. block (shadow_map os l) = Some b \<and> \<not> gc_locked (blocks os b) \<longrightarrow>
             openssd_lookup_ltop_map os l SHADOW = Some (Inr ((SHADOW, l), openssd_get_block os b))"
    using assms by (simp add: openssd_lookup_ltop_map_def lookup_wait_unlocked)
  from 1 2 3 4 5 6 7 8 show ?thesis
    by blast
qed

theorem latency_lookup_ltop_choice_witness:
  "3 < nr_pages stor_shadow
   \<and> addr (shadow_map stor_shadow 3) \<noteq> LTOP_EMPTY
   \<and> 0 < nr_pages stor_shadow div nr_pools stor_shadow
   \<and> pool_idx_of stor_shadow 3 < nr_pools stor_shadow
   \<and> nr_pools stor_shadow < 2 ^ 31
   \<and> is_active (pools stor_shadow (pool_idx_of stor_shadow 3)) \<noteq> 0
   \<and> block (shadow_map stor_shadow 3) = Some 5
   \<and> \<not> gc_locked (blocks stor_shadow 5)
   \<and> openssd_latency_lookup_ltop stor_shadow 3
       = Some (Inr ((SHADOW, 3), openssd_get_block stor_shadow 5))"
proof -
  have a: "3 < nr_pages stor_shadow"
    by (simp add: stor_shadow_def stor_busy_def stor0_def)
  have b: "addr (shadow_map stor_shadow 3) \<noteq> LTOP_EMPTY"
    "0 < nr_pages stor_shadow div nr_pools stor_shadow"
    "pool_idx_of stor_shadow 3 < nr_pools stor_shadow"
    "nr_pools stor_shadow < 2 ^ 31"
    "is_active (pools stor_shadow (pool_idx_of stor_shadow 3)) \<noteq> 0"
    "block (shadow_map stor_shadow 3) = Some 5"
    "\<not> gc_locked (blocks stor_shadow 5)"
    by (simp_all add: stor_shadow_def stor_busy_def stor0_def pool0_def blk0_def
        pool_idx_of_def LTOP_EMPTY_def)
  from latency_lookup_ltop_choice [OF a] b a show ?thesis
    by simp
qed

text \<open>
  The claim as stated fails where the shadow entry is empty: logical page 3 has its
  primary copy in pool 0, pool 0 is active, and the lookup returns the primary entry.
\<close>

theorem latency_lookup_ltop_counterexample:
  "3 < nr_pages stor_busy
   \<and> is_active (pools stor_busy (pool_idx_of stor_busy 3)) \<noteq> 0
   \<and> openssd_latency_lookup_ltop stor_busy 3
       = Some (Inr ((PRIMARY, 3), openssd_get_block stor_busy 2))"
  by (simp add: openssd_latency_lookup_ltop_def openssd_lookup_ltop_def lookup_wait_unlocked
      stor_busy_def stor0_def pool0_def blk0_def pool_idx_of_def LTOP_EMPTY_def)

section \<open>Validation of writes\<close>

text \<open>
  C8, as the code has it. A write whose sector lies inside the device and whose size is not
  \<open>NR_PHY_IN_LOG\<close> sectors comes back with \<open>DM_MAPIO_REQUEUE\<close>: the bio has only been
  pointed at the backing device, the store is unchanged, and the result does not depend
  on the write hook, which is not called.
\<close>

theorem nvm_map_rejects_wrong_size:
  assumes "bi_sector bio div NR_PHY_IN_LOG < nr_pages nvmd"
    and "bi_write bio" and "bio_sectors bio \<noteq> NR_PHY_IN_LOG"
  shows "nvm_map write_bio read_bio nvmd bio
           = (DM_MAPIO_REQUEUE, bio\<lparr>bi_bdev := dev_bdev nvmd\<rparr>, nvmd)"
  using assms by (simp add: nvm_map_def bio_sectors_def Let_def)

theorem nvm_map_rejects_wrong_size_witness:
  "bi_sector bio_w16 div NR_PHY_IN_LOG < nr_pages stor0 \<and> bi_write bio_w16
   \<and> bio_sectors bio_w16 \<noteq> NR_PHY_IN_LOG
   \<and> nvm_map submit_all submit_all stor0 bio_w16
        = (DM_MAPIO_REQUEUE, bio_w16\<lparr>bi_bdev := 1\<rparr>, stor0)"
proof -
  have a: "bi_sector bio_w16 div NR_PHY_IN_LOG < nr_pages stor0"
    and b: "bi_write bio_w16" and c: "bio_sectors bio_w16 \<noteq> NR_PHY_IN_LOG"
    by (simp_all add: bio_w16_def stor0_def bio_sectors_def const_defs)
  have d: "dev_bdev stor0 = 1" by (simp add: stor0_def)
  from nvm_map_rejects_wrong_size [OF a b c, of submit_all submit_all] a b c d
  show ?thesis by simp
qed

text \<open>
  The claim as stated fails for a write outside the device: the address test comes first,
  and a sixteen-sector write past the last page is ended with \<open>-EIO\<close>, not requeued.
\<close>

theorem nvm_map_counterexample:
  "bi_write bio_far \<and> bio_sectors bio_far \<noteq> NR_PHY_IN_LOG
   \<and> nvm_map submit_all submit_all stor0 bio_far
        = (DM_MAPIO_SUBMITTED, bio_far\<lparr>bi_end := Some (- 5)\<rparr>, stor0)"
  by (simp add: nvm_map_def bio_far_def stor0_def bio_sectors_def bio_io_error_def bio_endio_def
      const_defs)

section \<open>Read path\<close>








section \<open>Effect of a mapping update\<close>

text \<open>
  C2, as the code has it. For in-range \<open>l\<close> and \<open>addr p\<close>: when the entry of \<open>l\<close> has no
  block, both functions only set \<open>trans_map[l] = (addr p, block p)\<close> and
  \<open>rev_trans_map[addr p] = l\<close>. When the entry has block \<open>b\<close>, both set the bit of the old
  page's offset in the bitmap of \<open>b\<close> and add one to its \<open>nr_invalid_pages\<close>, an
  \<open>unsigned int\<close> that wraps around at \<open>2 ^ 32\<close> (a bit that was already set is reported by
  a warning), then set the two entries; \<open>nvm_update_map\<close>
  also writes \<open>LTOP_POISON\<close> to the reverse entry of the old address, and
  \<open>openssd_update_map_generic\<close> leaves that reverse entry as it was.
\<close>

theorem update_map_effect:
  assumes "l < nr_pages s" and "addr p < nr_pages s"
  shows "(block (trans_map s l) = None \<longrightarrow>
           nvm_update_map poison s l p
             = Inr (s\<lparr>trans_map := (trans_map s)(l := \<lparr>addr = addr p, block = block p\<rparr>),
                      rev_trans_map := (rev_trans_map s)(addr p := l)\<rparr>)
         \<and> openssd_update_map_generic s l (addr p) (block p)
             = Inr (s\<lparr>trans_map := (trans_map s)(l := \<lparr>addr = addr p, block = block p\<rparr>),
                      rev_trans_map := (rev_trans_map s)(addr p := l)\<rparr>))
    \<and> (\<forall>b. block (trans_map s l) = Some b \<and> 0 < nr_pages_per_blk s
             \<and> addr (trans_map s l) < nr_pages s \<longrightarrow>
         nvm_update_map poison s l p
           = Inr (s\<lparr>blocks := (blocks s)(b := (blocks s b)
                       \<lparr>nr_invalid_pages := (nr_invalid_pages (blocks s b) + 1) mod 2 ^ 32,
                        invalid_pages := insert (addr (trans_map s l) mod nr_pages_per_blk s)
                                           (invalid_pages (blocks s b))\<rparr>),
                    warnings := (if addr (trans_map s l) mod nr_pages_per_blk s
                                      \<in> invalid_pages (blocks s b)
                                 then warnings s + 1 else warnings s),
                    trans_map := (trans_map s)(l := \<lparr>addr = addr p, block = block p\<rparr>),
                    rev_trans_map := (rev_trans_map s)(addr (trans_map s l) := poison, addr p := l)\<rparr>))
    \<and> (\<forall>b. block (trans_map s l) = Some b \<and> 0 < nr_host_pages_in_blk s \<longrightarrow>
         openssd_update_map_generic s l (addr p) (block p)
           = Inr (s\<lparr>blocks := (blocks s)(b := (blocks s b)
                       \<lparr>nr_invalid_pages := (nr_invalid_pages (blocks s b) + 1) mod 2 ^ 32,
                        invalid_pages := insert (addr (trans_map s l) mod nr_host_pages_in_blk s)
                                           (invalid_pages (blocks s b))\<rparr>),
                    warnings := (if addr (trans_map s l) mod nr_host_pages_in_blk s
                                      \<in> invalid_pages (blocks s b)
                                 then warnings s + 1 else warnings s),
                    trans_map := (trans_map s)(l := \<lparr>addr = addr p, block = block p\<rparr>),
                    rev_trans_map := (rev_trans_map s)(addr p := l)\<rparr>))"
  using assms
  by (simp add: nvm_update_map_def invalidate_block_page_def openssd_update_map_generic_def
      mark_invalid_def Let_def)

theorem update_map_effect_witness:
  "3 < nr_pages stor_busy \<and> addr \<lparr>addr = 10, block = Some 2\<rparr> < nr_pages stor_busy
   \<and> block (trans_map stor_busy 3) = Some 2 \<and> 0 < nr_pages_per_blk stor_busy
   \<and> addr (trans_map stor_busy 3) < nr_pages stor_busy
   \<and> nvm_update_map 0xD3ADB33F stor_busy 3 \<lparr>addr = 10, block = Some 2\<rparr>
        = Inr (stor_busy\<lparr>blocks := (blocks stor_busy)(2 := (blocks stor_busy 2)
                       \<lparr>nr_invalid_pages := (nr_invalid_pages (blocks stor_busy 2) + 1) mod 2 ^ 32,
                        invalid_pages := insert (addr (trans_map stor_busy 3) mod nr_pages_per_blk stor_busy)
                                           (invalid_pages (blocks stor_busy 2))\<rparr>),
                    warnings := (if addr (trans_map stor_busy 3) mod nr_pages_per_blk stor_busy
                                      \<in> invalid_pages (blocks stor_busy 2)
                                 then warnings stor_busy + 1 else warnings stor_busy),
                    trans_map := (trans_map stor_busy)(3 := \<lparr>addr = addr \<lparr>addr = 10, block = Some 2\<rparr>,
                                                            block = block \<lparr>addr = 10, block = Some 2\<rparr>\<rparr>),
                    rev_trans_map := (rev_trans_map stor_busy)
                       (addr (trans_map stor_busy 3) := 0xD3ADB33F,
                        addr \<lparr>addr = 10, block = Some 2\<rparr> := 3)\<rparr>)
   \<and> addr (trans_map stor_busy 3) mod nr_pages_per_blk stor_busy = 1
   \<and> addr (trans_map stor_busy 3) mod nr_pages_per_blk stor_busy \<notin> invalid_pages (blocks stor_busy 2)
   \<and> (nr_invalid_pages (blocks stor_busy 2) + 1) mod 2 ^ 32 = 1
   \<and> 2 < nr_pages stor_busy \<and> block (trans_map stor_busy 2) = None
   \<and> openssd_update_map_generic stor_busy 2 (addr \<lparr>addr = 10, block = Some 2\<rparr>)
         (block \<lparr>addr = 10, block = Some 2\<rparr>)
        = Inr (stor_busy\<lparr>trans_map := (trans_map stor_busy)
                           (2 := \<lparr>addr = addr \<lparr>addr = 10, block = Some 2\<rparr>,
                                  block = block \<lparr>addr = 10, block = Some 2\<rparr>\<rparr>),
                         rev_trans_map := (rev_trans_map stor_busy)
                           (addr \<lparr>addr = 10, block = Some 2\<rparr> := 2)\<rparr>)
   \<and> 0 < nr_host_pages_in_blk stor_busy
   \<and> openssd_update_map_generic stor_busy 3 (addr \<lparr>addr = 10, block = Some 2\<rparr>)
         (block \<lparr>addr = 10, block = Some 2\<rparr>)
        = Inr (stor_busy\<lparr>blocks := (blocks stor_busy)(2 := (blocks stor_busy 2)
                       \<lparr>nr_invalid_pages := (nr_invalid_pages (blocks stor_busy 2) + 1) mod 2 ^ 32,
                        invalid_pages := insert (addr (trans_map stor_busy 3) mod nr_host_pages_in_blk stor_busy)
                                           (invalid_pages (blocks stor_busy 2))\<rparr>),
                    warnings := (if addr (trans_map stor_busy 3) mod nr_host_pages_in_blk stor_busy
                                      \<in> invalid_pages (blocks stor_busy 2)
                                 then warnings stor_busy + 1 else warnings stor_busy),
                    trans_map := (trans_map stor_busy)(3 := \<lparr>addr = addr \<lparr>addr = 10, block = Some 2\<rparr>,
                                                            block = block \<lparr>addr = 10, block = Some 2\<rparr>\<rparr>),
                    rev_trans_map := (rev_trans_map stor_busy)
                       (addr \<lparr>addr = 10, block = Some 2\<rparr> := 3)\<rparr>)
   \<and> addr (trans_map stor_busy 3) mod nr_host_pages_in_blk stor_busy = 1"
proof -
  have h: "3 < nr_pages stor_busy" "addr \<lparr>addr = 10, block = Some 2\<rparr> < nr_pages stor_busy"
    "block (trans_map stor_busy 3) = Some 2 \<and> 0 < nr_pages_per_blk stor_busy
       \<and> addr (trans_map stor_busy 3) < nr_pages stor_busy"
    "2 < nr_pages stor_busy" "block (trans_map stor_busy 2) = None"
    and e: "addr (trans_map stor_busy 3) mod nr_pages_per_blk stor_busy = 1"
    "addr (trans_map stor_busy 3) mod nr_pages_per_blk stor_busy \<notin> invalid_pages (blocks stor_busy 2)"
    "(nr_invalid_pages (blocks stor_busy 2) + 1) mod 2 ^ 32 = 1"
    by (simp_all add: stor_busy_def stor0_def blk0_def)
  have k: "block (trans_map stor_busy 3) = Some 2 \<and> 0 < nr_host_pages_in_blk stor_busy"
    and e': "addr (trans_map stor_busy 3) mod nr_host_pages_in_blk stor_busy = 1"
    by (simp_all add: stor_busy_def stor0_def)
  note C = update_map_effect [OF h(1) h(2), where poison = "0xD3ADB33F",
      THEN conjunct2, THEN conjunct2, THEN spec, THEN mp, OF k]
  note A = update_map_effect [OF h(1) h(2), where poison = "0xD3ADB33F",
      THEN conjunct2, THEN conjunct1, THEN spec, THEN mp, OF h(3)]
  note B = update_map_effect [OF h(4) h(2), where poison = "0xD3ADB33F",
      THEN conjunct1, THEN mp, OF h(5), THEN conjunct2]
  show ?thesis
    by (intro conjI A B C h(1,2,4,5) e e' k [THEN conjunct2]
        h(3) [THEN conjunct1] h(3) [THEN conjunct2, THEN conjunct1]
        h(3) [THEN conjunct2, THEN conjunct2])
qed

text \<open>
  The claim as stated fails for \<open>openssd_update_map_generic\<close>: logical page 3 moves from
  physical page 9 to page 10, and the reverse entry of page 9 still names logical page 3.
\<close>

theorem update_map_counterexample:
  "3 < nr_pages stor_busy \<and> 10 < nr_pages stor_busy
   \<and> block (trans_map stor_busy 3) = Some 2 \<and> addr (trans_map stor_busy 3) = 9
   \<and> rev_trans_map stor_busy 9 = 3
   \<and> openssd_update_map_generic stor_busy 3 10 (Some 2) = Inr stor_rewritten
   \<and> rev_trans_map stor_rewritten 9 = 3"
  by (simp add: openssd_update_map_generic_def mark_invalid_def stor_rewritten_def stor_busy_def
      stor0_def blk0_def Let_def)


section \<open>Victim selection\<close>

lemma foldl_max_invalid:
  "foldl (block_max_invalid os) x xs \<in> insert x (set xs)
   \<and> (\<forall>y \<in> insert x (set xs).
         nr_invalid_pages (blocks os y) \<le> nr_invalid_pages (blocks os (foldl (block_max_invalid os) x xs)))"
proof (induction xs arbitrary: x)
  case Nil
  show ?case by simp
next
  case (Cons a xs)
  let ?m = "block_max_invalid os x a"
  have m: "?m \<in> {x, a}" "nr_invalid_pages (blocks os x) \<le> nr_invalid_pages (blocks os ?m)"
    "nr_invalid_pages (blocks os a) \<le> nr_invalid_pages (blocks os ?m)"
    by (auto simp: block_max_invalid_def)
  from Cons.IH [of ?m] m show ?case
    by (auto intro: order_trans)
qed

lemma find_max_props:
  assumes "block_prio_find_max os xs = Inr b"
  shows "b \<in> set xs" and "\<forall>y \<in> set xs. nr_invalid_pages (blocks os y) \<le> nr_invalid_pages (blocks os b)"
proof -
  obtain x xs' where xs: "xs = x # xs'" and b: "b = foldl (block_max_invalid os) x (x # xs')"
    using assms by (auto simp: block_prio_find_max_def split: list.splits)
  from foldl_max_invalid [of os x "x # xs'"] xs b
  show "b \<in> set xs" and "\<forall>y \<in> set xs. nr_invalid_pages (blocks os y) \<le> nr_invalid_pages (blocks os b)"
    by auto
qed

lemma take_victim_props:
  assumes "gc_take_victim os pid b = Inr os3"
  shows "prio_list (pools os3 pid) = remove1 b (prio_list (pools os pid))"
    and "nr_free_blocks (pools os3 pid) = nr_free_blocks (pools os pid)"
    and "nr_invalid_pages (blocks os3 x) = nr_invalid_pages (blocks os x)"
    and "block_is_full os (blocks os b)"
    and "gc_running (blocks os3 b) = 1"
proof -
  define os1 where "os1 = os\<lparr>pools := (pools os)(pid := (pools os pid)\<lparr>prio_list := remove1 b (prio_list (pools os pid))\<rparr>)\<rparr>"
  define g where "g = (gc_running (blocks os1 b) + 1) mod 2 ^ 32"
  define os2 where "os2 = os1\<lparr>blocks := (blocks os1)(b := (blocks os1 b)\<lparr>gc_running := g\<rparr>)\<rparr>"
  have eq: "gc_take_victim os pid b =
      (if \<not> block_is_full os1 (blocks os1 b) then Inl BUG
       else if g \<noteq> 1 then Inl BUG else Inr (kref_put os2 b))"
    by (simp add: gc_take_victim_def Let_def os1_def os2_def g_def)
  from assms have full: "block_is_full os1 (blocks os1 b)" and g: "g = 1" and os3: "os3 = kref_put os2 b"
    unfolding eq by (simp_all split: if_splits)
  show "prio_list (pools os3 pid) = remove1 b (prio_list (pools os pid))"
    and "nr_free_blocks (pools os3 pid) = nr_free_blocks (pools os pid)"
    and "nr_invalid_pages (blocks os3 x) = nr_invalid_pages (blocks os x)"
    unfolding os3 by (simp_all add: kref_put_def Let_def os2_def os1_def)
  show "gc_running (blocks os3 b) = 1"
    unfolding os3 using g by (simp add: kref_put_def Let_def os2_def)
  show "block_is_full os (blocks os b)"
    using full by (simp add: block_is_full_def os1_def)
qed

lemma gc_loop_props:
  "gc_collect_loop os pid need = Inr (vs, os') \<Longrightarrow>
     max_first (\<lambda>b. nr_invalid_pages (blocks os b)) (prio_list (pools os pid)) vs
   \<and> prio_list (pools os' pid) = foldl (\<lambda>xs v. remove1 v xs) (prio_list (pools os pid)) vs
   \<and> (\<forall>b. nr_invalid_pages (blocks os' b) = nr_invalid_pages (blocks os b))
   \<and> nr_free_blocks (pools os' pid) = nr_free_blocks (pools os pid)
   \<and> (need > nr_free_blocks (pools os pid) \<longrightarrow>
        (\<forall>b \<in> set (prio_list (pools os' pid)). nr_invalid_pages (blocks os b) = 0))
   \<and> (\<not> need > nr_free_blocks (pools os pid) \<longrightarrow> vs = [] \<and> os' = os)"
proof (induction os pid need arbitrary: vs os' rule: gc_collect_loop.induct)
  case (1 os pid need)
  let ?pool = "pools os pid"
  let ?f = "\<lambda>b. nr_invalid_pages (blocks os b)"
  note eq = gc_collect_loop.simps [of os pid need]
  show ?case
  proof (cases "need > nr_free_blocks ?pool \<and> prio_list ?pool \<noteq> []")
    case False
    with "1.prems" have "vs = []" "os' = os"
      by (simp_all add: eq)
    with False show ?thesis by auto
  next
    case go: True
    then obtain b where b: "block_prio_find_max os (prio_list ?pool) = Inr b"
      by (cases "prio_list ?pool") (auto simp: block_prio_find_max_def)
    note mx = find_max_props [OF b]
    show ?thesis
    proof (cases "?f b = 0")
      case True
      with "1.prems" go b have "vs = []" "os' = os"
        by (simp_all add: eq)
      with True mx go show ?thesis by auto
    next
      case nz: False
      from "1.prems" go b nz
      obtain os3 where tv: "gc_take_victim os pid b = Inr os3"
        by (cases "gc_take_victim os pid b") (simp_all add: eq)
      from "1.prems" go b nz tv
      obtain vs' where rec: "gc_collect_loop os3 pid need = Inr (vs', os')" and vs: "vs = b # vs'"
        by (cases "gc_collect_loop os3 pid need") (auto simp: eq)
      note s3 = take_victim_props(1,2,3) [OF tv]
      have f3: "(\<lambda>b. nr_invalid_pages (blocks os3 b)) = ?f"
        by (rule ext) (simp add: s3)
      have ih: "max_first (\<lambda>b. nr_invalid_pages (blocks os3 b)) (prio_list (pools os3 pid)) vs'
         \<and> prio_list (pools os' pid) = foldl (\<lambda>xs v. remove1 v xs) (prio_list (pools os3 pid)) vs'
         \<and> (\<forall>b. nr_invalid_pages (blocks os' b) = nr_invalid_pages (blocks os3 b))
         \<and> nr_free_blocks (pools os' pid) = nr_free_blocks (pools os3 pid)
         \<and> (need > nr_free_blocks (pools os3 pid) \<longrightarrow>
              (\<forall>b \<in> set (prio_list (pools os' pid)). nr_invalid_pages (blocks os3 b) = 0))
         \<and> (\<not> need > nr_free_blocks (pools os3 pid) \<longrightarrow> vs' = [] \<and> os' = os3)"
        by (rule "1.IH" [OF refl go b nz tv rec])
      from ih mx nz go show ?thesis
        unfolding vs f3 s3 by simp
    qed
  qed
qed

lemma take_victim_ok:
  assumes "block_is_full os (blocks os b)" and "gc_running (blocks os b) = 0"
  shows "\<exists>os3. gc_take_victim os pid b = Inr os3"
  using assms by (simp add: gc_take_victim_def Let_def block_is_full_def)

lemma take_victim_others:
  assumes "gc_take_victim os pid b = Inr os3" and "x \<noteq> b"
  shows "blocks os3 x = blocks os x" and "nr_host_pages_in_blk os3 = nr_host_pages_in_blk os"
proof -
  define os1 where "os1 = os\<lparr>pools := (pools os)(pid := (pools os pid)\<lparr>prio_list := remove1 b (prio_list (pools os pid))\<rparr>)\<rparr>"
  define g where "g = (gc_running (blocks os1 b) + 1) mod 2 ^ 32"
  define os2 where "os2 = os1\<lparr>blocks := (blocks os1)(b := (blocks os1 b)\<lparr>gc_running := g\<rparr>)\<rparr>"
  have eq: "gc_take_victim os pid b =
      (if \<not> block_is_full os1 (blocks os1 b) then Inl BUG
       else if g \<noteq> 1 then Inl BUG else Inr (kref_put os2 b))"
    by (simp add: gc_take_victim_def Let_def os1_def os2_def g_def)
  from assms(1) have os3: "os3 = kref_put os2 b"
    unfolding eq by (simp split: if_splits)
  show "blocks os3 x = blocks os x" and "nr_host_pages_in_blk os3 = nr_host_pages_in_blk os"
    unfolding os3 using assms(2) by (simp_all add: kref_put_def Let_def os2_def os1_def)
qed

lemma gc_loop_returns:
  "distinct (prio_list (pools os pid)) \<Longrightarrow>
   (\<forall>b \<in> set (prio_list (pools os pid)). nr_invalid_pages (blocks os b) \<noteq> 0 \<longrightarrow>
        block_is_full os (blocks os b) \<and> gc_running (blocks os b) = 0) \<Longrightarrow>
   \<exists>r. gc_collect_loop os pid need = Inr r"
proof (induction os pid need rule: gc_collect_loop.induct)
  case (1 os pid need)
  let ?pool = "pools os pid"
  note eq = gc_collect_loop.simps [of os pid need]
  show ?case
  proof (cases "need > nr_free_blocks ?pool \<and> prio_list ?pool \<noteq> []")
    case False
    then show ?thesis by (auto simp: eq Let_def)
  next
    case go: True
    then obtain b where b: "block_prio_find_max os (prio_list ?pool) = Inr b"
      by (cases "prio_list ?pool") (auto simp: block_prio_find_max_def)
    note mx = find_max_props [OF b]
    show ?thesis
    proof (cases "nr_invalid_pages (blocks os b) = 0")
      case True
      with go b show ?thesis by (simp add: eq Let_def)
    next
      case nz: False
      with mx(1) "1.prems"(2)
      have "block_is_full os (blocks os b)" "gc_running (blocks os b) = 0"
        by auto
      then obtain os3 where tv: "gc_take_victim os pid b = Inr os3"
        using take_victim_ok by blast
      note s3 = take_victim_props(1,3) [OF tv]
      have d3: "distinct (prio_list (pools os3 pid))"
        using "1.prems"(1) by (simp add: s3)
      have w3: "\<forall>x \<in> set (prio_list (pools os3 pid)). nr_invalid_pages (blocks os3 x) \<noteq> 0 \<longrightarrow>
          block_is_full os3 (blocks os3 x) \<and> gc_running (blocks os3 x) = 0"
      proof (intro ballI impI)
        fix x assume x: "x \<in> set (prio_list (pools os3 pid))" "nr_invalid_pages (blocks os3 x) \<noteq> 0"
        then have xb: "x \<noteq> b" "x \<in> set (prio_list ?pool)"
          using "1.prems"(1) by (auto simp: s3)
        note o = take_victim_others [OF tv xb(1)]
        from x(2) xb "1.prems"(2) have "block_is_full os (blocks os x) \<and> gc_running (blocks os x) = 0"
          by (simp add: o)
        then show "block_is_full os3 (blocks os3 x) \<and> gc_running (blocks os3 x) = 0"
          by (simp add: o block_is_full_def)
      qed
      from "1.IH" [OF refl go b nz tv d3 w3]
      obtain r where "gc_collect_loop os3 pid need = Inr r" ..
      with go b nz tv show ?thesis
        by (cases r) (simp add: eq Let_def)
    qed
  qed
qed

lemma max_first_nonzero: "max_first f prio vs \<Longrightarrow> \<forall>v \<in> set vs. f v \<noteq> 0"
  by (induction vs arbitrary: prio) auto

lemma foldl_remove1_filter:
  "distinct xs \<Longrightarrow> foldl (\<lambda>xs v. remove1 v xs) xs vs = filter (\<lambda>b. b \<notin> set vs) xs"
proof (induction vs arbitrary: xs)
  case Nil
  show ?case by simp
next
  case (Cons v vs)
  have "remove1 v xs = filter (\<lambda>b. b \<noteq> v) xs"
    using Cons.prems by (simp add: distinct_remove1_removeAll removeAll_filter_not_eq) metis
  moreover have "distinct (remove1 v xs)"
    using Cons.prems by simp
  ultimately show ?case
    using Cons.IH [of "remove1 v xs"] by (simp add: conj_commute)
qed

text \<open>
  C4. A pass of \<open>nvm_gc_collect\<close> on a pool computes the need as \<open>nr_blocks div 10\<close>.
  On a priority list without repetitions whose blocks with invalid pages are full and not
  under collection, the pass returns. When it returns with the victims \<open>vs\<close>: with the need
  not above \<open>nr_free_blocks\<close> nothing is selected and nothing changes; each victim is, at
  its turn, a block of the remaining list with the greatest \<open>nr_invalid_pages\<close>, which is
  not zero; the victims, and only they, are removed from the list; and when the need is
  above \<open>nr_free_blocks\<close> the pass ends only when the blocks left on the list have no
  invalid page.
\<close>

theorem gc_collect_victims:
  "(distinct (prio_list (pools os pid))
      \<and> (\<forall>b \<in> set (prio_list (pools os pid)). nr_invalid_pages (blocks os b) \<noteq> 0 \<longrightarrow>
             block_is_full os (blocks os b) \<and> gc_running (blocks os b) = 0)
      \<longrightarrow> (\<exists>vs os'. nvm_gc_collect os pid = Inr (vs, os')))
   \<and> (\<forall>vs os'. nvm_gc_collect os pid = Inr (vs, os') \<longrightarrow>
        (\<not> nr_blocks (pools os pid) div 10 > nr_free_blocks (pools os pid) \<longrightarrow> vs = [] \<and> os' = os)
      \<and> max_first (\<lambda>b. nr_invalid_pages (blocks os b)) (prio_list (pools os pid)) vs
      \<and> (\<forall>v \<in> set vs. nr_invalid_pages (blocks os v) \<noteq> 0)
      \<and> prio_list (pools os' pid) = foldl (\<lambda>xs v. remove1 v xs) (prio_list (pools os pid)) vs
      \<and> (distinct (prio_list (pools os pid)) \<longrightarrow>
            prio_list (pools os' pid) = filter (\<lambda>b. b \<notin> set vs) (prio_list (pools os pid)))
      \<and> (nr_blocks (pools os pid) div 10 > nr_free_blocks (pools os pid) \<longrightarrow>
            (\<forall>b \<in> set (prio_list (pools os' pid)). nr_invalid_pages (blocks os b) = 0)))"
proof (intro conjI allI impI)
  assume "distinct (prio_list (pools os pid))
      \<and> (\<forall>b \<in> set (prio_list (pools os pid)). nr_invalid_pages (blocks os b) \<noteq> 0 \<longrightarrow>
             block_is_full os (blocks os b) \<and> gc_running (blocks os b) = 0)"
  then obtain r where "gc_collect_loop os pid (nr_blocks (pools os pid) div 10) = Inr r"
    using gc_loop_returns by blast
  then show "\<exists>vs os'. nvm_gc_collect os pid = Inr (vs, os')"
    by (cases r) (simp add: nvm_gc_collect_def)
next
  fix vs os'
  assume "nvm_gc_collect os pid = Inr (vs, os')"
  then have r: "gc_collect_loop os pid (nr_blocks (pools os pid) div 10) = Inr (vs, os')"
    by (simp add: nvm_gc_collect_def)
  note p = gc_loop_props [OF r]
  from p show "max_first (\<lambda>b. nr_invalid_pages (blocks os b)) (prio_list (pools os pid)) vs"
    by simp
  then show "\<forall>v \<in> set vs. nr_invalid_pages (blocks os v) \<noteq> 0"
    by (rule max_first_nonzero)
  from p show f: "prio_list (pools os' pid) = foldl (\<lambda>xs v. remove1 v xs) (prio_list (pools os pid)) vs"
    by simp
  { assume "distinct (prio_list (pools os pid))"
    then show "prio_list (pools os' pid) = filter (\<lambda>b. b \<notin> set vs) (prio_list (pools os pid))"
      using f by (simp add: foldl_remove1_filter) }
  { assume "\<not> nr_blocks (pools os pid) div 10 > nr_free_blocks (pools os pid)"
    with p show "vs = []" and "os' = os" by simp_all }
  { assume "nr_blocks (pools os pid) div 10 > nr_free_blocks (pools os pid)"
    with p show "\<forall>b \<in> set (prio_list (pools os' pid)). nr_invalid_pages (blocks os b) = 0"
      by simp }
qed

text \<open>The pass on the example pool selects block 3, then block 2, and leaves block 4.\<close>

lemma gc_collect_example:
  "map_sum id fst (nvm_gc_collect stor_gc 0) = Inr [3, 2]"
  by (simp add: nvm_gc_collect_def gc_collect_loop.simps gc_take_victim_def kref_put_def
      block_prio_find_max_def block_max_invalid_def block_is_full_def stor_gc_def stor0_def
      blk0_def pool0_def const_defs Let_def)

theorem gc_collect_victims_witness:
  "distinct (prio_list (pools stor_gc 0))
   \<and> prio_list (pools stor_gc 0) = [2, 3, 4]
   \<and> block_is_full stor_gc (blocks stor_gc 2) \<and> gc_running (blocks stor_gc 2) = 0
   \<and> block_is_full stor_gc (blocks stor_gc 3) \<and> gc_running (blocks stor_gc 3) = 0
   \<and> nr_invalid_pages (blocks stor_gc 4) = 0
   \<and> nr_blocks (pools stor_gc 0) div 10 > nr_free_blocks (pools stor_gc 0)
   \<and> (\<exists>vs os'. nvm_gc_collect stor_gc 0 = Inr (vs, os')
         \<and> max_first (\<lambda>b. nr_invalid_pages (blocks stor_gc b)) (prio_list (pools stor_gc 0)) vs
         \<and> (\<forall>v \<in> set vs. nr_invalid_pages (blocks stor_gc v) \<noteq> 0)
         \<and> prio_list (pools os' 0) = filter (\<lambda>b. b \<notin> set vs) (prio_list (pools stor_gc 0))
         \<and> (\<forall>b \<in> set (prio_list (pools os' 0)). nr_invalid_pages (blocks stor_gc b) = 0))"
proof -
  have d: "distinct (prio_list (pools stor_gc 0))"
    and n: "nr_blocks (pools stor_gc 0) div 10 > nr_free_blocks (pools stor_gc 0)"
    and p: "prio_list (pools stor_gc 0) = [2, 3, 4]"
    by (simp_all add: stor_gc_def)
  have b: "block_is_full stor_gc (blocks stor_gc 2)" "gc_running (blocks stor_gc 2) = 0"
    "block_is_full stor_gc (blocks stor_gc 3)" "gc_running (blocks stor_gc 3) = 0"
    "nr_invalid_pages (blocks stor_gc 4) = 0"
    by (simp_all add: stor_gc_def stor0_def blk0_def block_is_full_def const_defs)
  have w: "\<forall>b \<in> set (prio_list (pools stor_gc 0)). nr_invalid_pages (blocks stor_gc b) \<noteq> 0 \<longrightarrow>
          block_is_full stor_gc (blocks stor_gc b) \<and> gc_running (blocks stor_gc b) = 0"
    unfolding p using b by simp
  note t = gc_collect_victims [of stor_gc 0]
  from t d w obtain vs os' where r: "nvm_gc_collect stor_gc 0 = Inr (vs, os')"
    by blast
  from t r d n
  have "max_first (\<lambda>b. nr_invalid_pages (blocks stor_gc b)) (prio_list (pools stor_gc 0)) vs
         \<and> (\<forall>v \<in> set vs. nr_invalid_pages (blocks stor_gc v) \<noteq> 0)
         \<and> prio_list (pools os' 0) = filter (\<lambda>b. b \<notin> set vs) (prio_list (pools stor_gc 0))
         \<and> (\<forall>b \<in> set (prio_list (pools os' 0)). nr_invalid_pages (blocks stor_gc b) = 0)"
    by blast
  with r have "\<exists>vs os'. nvm_gc_collect stor_gc 0 = Inr (vs, os')
         \<and> max_first (\<lambda>b. nr_invalid_pages (blocks stor_gc b)) (prio_list (pools stor_gc 0)) vs
         \<and> (\<forall>v \<in> set vs. nr_invalid_pages (blocks stor_gc v) \<noteq> 0)
         \<and> prio_list (pools os' 0) = filter (\<lambda>b. b \<notin> set vs) (prio_list (pools stor_gc 0))
         \<and> (\<forall>b \<in> set (prio_list (pools os' 0)). nr_invalid_pages (blocks stor_gc b) = 0)"
    by blast
  with d p b n show ?thesis
    by (intro conjI)
qed


section \<open>Out-of-place writes\<close>

lemma alloc_full_empty:
  "openssd_alloc_phys_addr os b = (P, os') \<Longrightarrow> block_is_full os (blocks os b) \<Longrightarrow> P = LTOP_EMPTY"
  by (simp add: openssd_alloc_phys_addr_def openssd_alloc_phys_addr_fast_def Let_def)

lemma alloc_props:
  assumes ok: "cursor_ok os b" and KH: "nr_host_pages_in_blk os < 2 ^ 32"
    and a: "openssd_alloc_phys_addr os b = (P, os')" and ne: "P \<noteq> LTOP_EMPTY"
  shows "P = (block_to_addr os b + cursor os b) mod 2 ^ 64"
    and "cursor os' b = cursor os b + 1"
    and "cursor os b < nr_host_pages_in_blk os"
    and "cursor_ok os' b"
proof -
  let ?blk = "blocks os b"
  have nf: "\<not> block_is_full os ?blk"
    using alloc_full_empty [OF a] ne by blast
  have o: "next_offset ?blk \<le> 1" and c: "next_page ?blk + next_offset ?blk \<le> nr_host_pages_in_blk os"
    using ok by (simp_all add: cursor_ok_def cursor_def const_defs)
  from c KH have lt32: "next_page ?blk + next_offset ?blk < 2 ^ 32" by simp
  then have "(next_page ?blk + next_offset ?blk) mod 2 ^ 32 = next_page ?blk + next_offset ?blk"
    by simp
  with nf have neq: "next_page ?blk + next_offset ?blk \<noteq> nr_host_pages_in_blk os"
    by (simp add: block_is_full_def const_defs)
  with c have lt: "next_page ?blk + next_offset ?blk < nr_host_pages_in_blk os" by simp
  then show "cursor os b < nr_host_pages_in_blk os"
    by (simp add: cursor_def const_defs)
  consider "next_offset ?blk = 0" | "next_offset ?blk = 1" using o by linarith
  then have "P = (block_to_addr os b + cursor os b) mod 2 ^ 64 \<and> cursor os' b = cursor os b + 1
      \<and> cursor_ok os' b"
  proof cases
    case 1
    have m0: "next_page ?blk mod 4294967296 = next_page ?blk"
      using lt32 by simp
    from 1 a nf lt show ?thesis
      by (auto simp: openssd_alloc_phys_addr_def openssd_alloc_phys_addr_fast_def Let_def
          cursor_def cursor_ok_def const_defs m0)
  next
    case 2
    have "next_page ?blk + 1 < 2 ^ 32" using lt32 2 by simp
    then have m: "(next_page ?blk + 1) mod 2 ^ 32 = next_page ?blk + 1" by simp
    have m': "Suc (next_page ?blk) mod 4294967296 = Suc (next_page ?blk)"
      using m by simp
    from a nf lt 2 show ?thesis
      by (auto simp: openssd_alloc_phys_addr_def openssd_alloc_phys_addr_fast_def Let_def
          cursor_def cursor_ok_def const_defs m')
  qed
  then show "P = (block_to_addr os b + cursor os b) mod 2 ^ 64"
    and "cursor os' b = cursor os b + 1" and "cursor_ok os' b"
    by simp_all
qed

lemma alloc_frame:
  assumes a: "openssd_alloc_phys_addr os b = (P, os')"
  shows "nr_host_pages_in_blk os' = nr_host_pages_in_blk os" and "nr_pages os' = nr_pages os"
    and "trans_map os' = trans_map os"
    and "b' \<noteq> b \<Longrightarrow> blocks os' b' = blocks os b'"
  using a
  by (auto simp: openssd_alloc_phys_addr_def openssd_alloc_phys_addr_fast_def Let_def
      split: if_splits)

lemma alloc_cursor_mono:
  assumes ok: "cursor_ok os b'" and KH: "nr_host_pages_in_blk os < 2 ^ 32"
    and a: "openssd_alloc_phys_addr os b = (P, os')"
  shows "cursor_ok os' b' \<and> cursor os b' \<le> cursor os' b'"
proof (cases "b' = b")
  case False
  from alloc_frame(1) [OF a] alloc_frame(4) [OF a False] ok show ?thesis
    by (simp add: cursor_ok_def cursor_def)
next
  case True
  show ?thesis
  proof (cases "block_is_full os (blocks os b)")
    case True
    with a have "os' = os"
      by (simp add: openssd_alloc_phys_addr_def openssd_alloc_phys_addr_fast_def Let_def)
    with ok show ?thesis by simp
  next
    case nf: False
    have o: "next_offset (blocks os b) \<le> 1"
      and c: "next_page (blocks os b) + next_offset (blocks os b) \<le> nr_host_pages_in_blk os"
      using ok True by (simp_all add: cursor_ok_def cursor_def const_defs)
    from c KH have lt32: "next_page (blocks os b) + next_offset (blocks os b) < 2 ^ 32" by simp
    then have "(next_page (blocks os b) + next_offset (blocks os b)) mod 2 ^ 32
        = next_page (blocks os b) + next_offset (blocks os b)"
      by simp
    with nf c have lt: "next_page (blocks os b) + next_offset (blocks os b) < nr_host_pages_in_blk os"
      by (simp add: block_is_full_def const_defs)
    consider "next_offset (blocks os b) = 0" | "next_offset (blocks os b) = 1" using o by linarith
    then show ?thesis
    proof cases
      case 1
      have m0: "next_page (blocks os b) mod 4294967296 = next_page (blocks os b)"
        using lt32 by simp
      from 1 a nf lt True show ?thesis
        by (auto simp: openssd_alloc_phys_addr_def openssd_alloc_phys_addr_fast_def Let_def
            cursor_def cursor_ok_def const_defs m0)
    next
      case 2
      have "next_page (blocks os b) + 1 < 2 ^ 32" using lt32 2 by simp
      then have m': "Suc (next_page (blocks os b)) mod 4294967296 = Suc (next_page (blocks os b))"
        by simp
      from a nf lt 2 True show ?thesis
        by (auto simp: openssd_alloc_phys_addr_def openssd_alloc_phys_addr_fast_def Let_def
            cursor_def cursor_ok_def const_defs m')
    qed
  qed
qed

lemma update_generic_frame:
  assumes "openssd_update_map_generic os l p blk = Inr os'"
  shows "next_page (blocks os' b) = next_page (blocks os b)"
    and "next_offset (blocks os' b) = next_offset (blocks os b)"
    and "nr_host_pages_in_blk os' = nr_host_pages_in_blk os" and "nr_pages os' = nr_pages os"
    and "l' \<noteq> l \<Longrightarrow> trans_map os' l' = trans_map os l'"
    and "l < nr_pages os \<Longrightarrow> p < nr_pages os \<Longrightarrow> trans_map os' l = \<lparr>addr = p, block = blk\<rparr>"
  using assms
  by (auto simp: openssd_update_map_generic_def mark_invalid_def Let_def
      split: if_splits option.splits)

lemma update_generic_cursor:
  assumes "openssd_update_map_generic os l p blk = Inr os'"
  shows "cursor os' b = cursor os b" and "cursor_ok os' b = cursor_ok os b"
  using update_generic_frame(1,2,3) [OF assms]
  by (simp_all add: cursor_def cursor_ok_def)

lemma reset_frame:
  shows "nr_host_pages_in_blk (openssd_reset_block os b) = nr_host_pages_in_blk os"
    and "nr_pages (openssd_reset_block os b) = nr_pages os"
    and "trans_map (openssd_reset_block os b) = trans_map os"
    and "b' \<noteq> b \<Longrightarrow> blocks (openssd_reset_block os b) b' = blocks os b'"
    and "cursor (openssd_reset_block os b) b = 0"
    and "next_offset (blocks (openssd_reset_block os b) b) = 0"
  by (simp_all add: openssd_reset_block_def Let_def cursor_def)

lemma openssd_step_props:
  assumes st: "openssd_step os e = Inr os'" and KH: "nr_host_pages_in_blk os < 2 ^ 32"
  shows "nr_host_pages_in_blk os' = nr_host_pages_in_blk os" and "nr_pages os' = nr_pages os"
    and "cursor_ok os b \<Longrightarrow> cursor_ok os' b"
    and "cursor_ok os b \<Longrightarrow> e \<noteq> Reset b \<Longrightarrow> cursor os b \<le> cursor os' b"
    and "(\<forall>b'. e \<noteq> Write l b') \<Longrightarrow> trans_map os' l = trans_map os l"
proof -
  have "nr_host_pages_in_blk os' = nr_host_pages_in_blk os \<and> nr_pages os' = nr_pages os
      \<and> (cursor_ok os b \<longrightarrow> cursor_ok os' b)
      \<and> (cursor_ok os b \<longrightarrow> e \<noteq> Reset b \<longrightarrow> cursor os b \<le> cursor os' b)
      \<and> ((\<forall>b'. e \<noteq> Write l b') \<longrightarrow> trans_map os' l = trans_map os l)"
  proof (cases e)
    case (Write l0 b0)
    obtain P os1 where a: "openssd_alloc_phys_addr os b0 = (P, os1)"
      by (cases "openssd_alloc_phys_addr os b0")
    with st Write have u: "openssd_update_map_generic os1 l0 P (Some b0) = Inr os'"
      by (auto simp: openssd_write_def split: sum.splits)
    note af = alloc_frame [OF a]
    note uf = update_generic_frame [OF u]
    note uc = update_generic_cursor [OF u]
    have "cursor_ok os b \<longrightarrow> cursor_ok os' b \<and> cursor os b \<le> cursor os' b"
      using alloc_cursor_mono [OF _ KH a, of b] uc [of b] by simp
    moreover have "(\<forall>b'. e \<noteq> Write l b') \<longrightarrow> trans_map os' l = trans_map os l"
      using Write uf(5) [of l] af(3) by auto
    ultimately show ?thesis
      using af(1,2) uf(3,4) by simp
  next
    case (Reset b0)
    with st have os': "os' = openssd_reset_block os b0" by simp
    show ?thesis
    proof (cases "b = b0")
      case True
      then show ?thesis
        using Reset reset_frame(1,2,3,5,6) [where os = os and b = b0]
        by (simp add: os' cursor_ok_def)
    next
      case False
      then show ?thesis
        using Reset reset_frame(1,2,3) [where os = os and b = b0]
          reset_frame(4) [where os = os and b = b0 and b' = b]
        by (simp add: os' cursor_ok_def cursor_def)
    qed
  qed
  then show "nr_host_pages_in_blk os' = nr_host_pages_in_blk os" and "nr_pages os' = nr_pages os"
    and "cursor_ok os b \<Longrightarrow> cursor_ok os' b"
    and "cursor_ok os b \<Longrightarrow> e \<noteq> Reset b \<Longrightarrow> cursor os b \<le> cursor os' b"
    and "(\<forall>b'. e \<noteq> Write l b') \<Longrightarrow> trans_map os' l = trans_map os l"
    by simp_all
qed

lemma openssd_run_props:
  "openssd_run os es = Inr os' \<Longrightarrow> nr_host_pages_in_blk os < 2 ^ 32 \<Longrightarrow>
   nr_host_pages_in_blk os' = nr_host_pages_in_blk os \<and> nr_pages os' = nr_pages os
   \<and> (cursor_ok os b \<longrightarrow> cursor_ok os' b)
   \<and> (cursor_ok os b \<longrightarrow> Reset b \<notin> set es \<longrightarrow> cursor os b \<le> cursor os' b)
   \<and> ((\<forall>b'. Write l b' \<notin> set es) \<longrightarrow> trans_map os' l = trans_map os l)"
proof (induction es arbitrary: os)
  case Nil
  then show ?case by simp
next
  case (Cons e es)
  from Cons.prems(1) obtain os1 where st: "openssd_step os e = Inr os1"
    and rn: "openssd_run os1 es = Inr os'"
    by (auto split: sum.splits)
  note sp = openssd_step_props [OF st Cons.prems(2)]
  have KH1: "nr_host_pages_in_blk os1 < 2 ^ 32" using sp(1) Cons.prems(2) by simp
  note ih = Cons.IH [OF rn KH1]
  show ?case
  proof (intro conjI impI)
    show "nr_host_pages_in_blk os' = nr_host_pages_in_blk os" using ih sp(1) by simp
    show "nr_pages os' = nr_pages os" using ih sp(2) by simp
    show "cursor_ok os' b" if "cursor_ok os b" using ih sp(3) [OF that] by simp
    show "cursor os b \<le> cursor os' b" if "cursor_ok os b" "Reset b \<notin> set (e # es)"
    proof -
      have "cursor os b \<le> cursor os1 b" using sp(4) [OF that(1)] that(2) by auto
      moreover have "cursor os1 b \<le> cursor os' b" using ih sp(3) [OF that(1)] that(2) by auto
      ultimately show ?thesis by simp
    qed
    show "trans_map os' l = trans_map os l" if "\<forall>b'. Write l b' \<notin> set (e # es)"
    proof -
      have "trans_map os1 l = trans_map os l" using sp(5) [of l] that by auto
      moreover have "trans_map os' l = trans_map os1 l" using ih that by auto
      ultimately show ?thesis by simp
    qed
  qed
qed

lemma addr_in_block:
  assumes "valid_block os b" "nr_pages os < 2 ^ 32" "c < nr_host_pages_in_blk os"
  shows "(block_to_addr os b + c) mod 2 ^ 64 = b * nr_host_pages_in_blk os + c"
    and "b * nr_host_pages_in_blk os + c < nr_pages os"
proof -
  let ?K = "nr_host_pages_in_blk os"
  have v: "b * ?K + ?K \<le> nr_pages os"
    using assms(1) by (simp add: valid_block_def)
  then show lt: "b * ?K + c < nr_pages os"
    using assms(3) by simp
  have "b * ?K < 2 ^ 32" using v assms(2) by simp
  then have base: "block_to_addr os b = b * ?K"
    by (simp add: block_to_addr_def)
  have "b * ?K + c < 2 ^ 32" using lt assms(2) by simp
  moreover have "(2::nat) ^ 32 < 2 ^ 64" by simp
  ultimately have "b * ?K + c < 2 ^ 64" by (rule less_trans)
  then show "(block_to_addr os b + c) mod 2 ^ 64 = b * ?K + c"
    unfolding base by simp
qed

lemma block_ranges_apart:
  assumes "c1 < (K::nat)" "c2 < K" "b1 \<noteq> b2"
  shows "b1 * K + c1 \<noteq> b2 * K + c2"
proof (cases "b1 < b2")
  case True
  then have "(b1 + 1) * K \<le> b2 * K" by (intro mult_le_mono1) simp
  then have "b1 * K + c1 < b2 * K" using assms(1) by simp
  then show ?thesis by simp
next
  case False
  with assms(3) have "b2 < b1" by simp
  then have "(b2 + 1) * K \<le> b1 * K" by (intro mult_le_mono1) simp
  then have "b2 * K + c2 < b1 * K" using assms(2) by simp
  then show ?thesis by simp
qed

lemma valid_block_small:
  "valid_block os b \<Longrightarrow> nr_pages os < 2 ^ 32 \<Longrightarrow> nr_host_pages_in_blk os < 2 ^ 32"
proof -
  assume a: "valid_block os b" "nr_pages os < 2 ^ 32"
  have "nr_host_pages_in_blk os \<le> (b + 1) * nr_host_pages_in_blk os" by simp
  with a show ?thesis unfolding valid_block_def by linarith
qed

lemma openssd_out_of_place:
  assumes N: "nr_pages os < 2 ^ 32" and v: "valid_block os b1" "valid_block os b2"
    and ok: "cursor_ok os b1" "cursor_ok os b2" and l: "l < nr_pages os"
    and w1: "openssd_write os l b1 = Inr (P1, os1)" and n1: "P1 \<noteq> LTOP_EMPTY"
    and r: "openssd_run os1 es = Inr os2" and nr: "Reset b1 \<notin> set es"
    and w2: "openssd_write os2 l b2 = Inr (P2, os3)" and n2: "P2 \<noteq> LTOP_EMPTY"
  shows "P2 \<noteq> P1"
    and "trans_map os1 l = \<lparr>addr = P1, block = Some b1\<rparr>"
    and "(\<forall>b. Write l b \<notin> set es) \<longrightarrow> trans_map os2 l = \<lparr>addr = P1, block = Some b1\<rparr>"
    and "trans_map os3 l = \<lparr>addr = P2, block = Some b2\<rparr>"
proof -
  let ?K = "nr_host_pages_in_blk os"
  have KH: "?K < 2 ^ 32" using valid_block_small [OF v(1) N] .
  obtain osA where a1: "openssd_alloc_phys_addr os b1 = (P1, osA)"
    and u1: "openssd_update_map_generic osA l P1 (Some b1) = Inr os1"
    using w1 by (auto simp: openssd_write_def split: prod.splits sum.splits)
  note p1 = alloc_props [OF ok(1) KH a1 n1]
  note fA = alloc_frame(1,2) [OF a1]
  have okA2: "cursor_ok osA b2" using alloc_cursor_mono [OF ok(2) KH a1] by simp
  note f1 = update_generic_frame(3,4) [OF u1]
  have c1: "cursor os1 b1 = cursor os b1 + 1" "cursor_ok os1 b1" "cursor_ok os1 b2"
    using update_generic_cursor [OF u1] p1(2,4) okA2 by simp_all
  have K1: "nr_host_pages_in_blk os1 = ?K" "nr_pages os1 = nr_pages os"
    using fA f1 by simp_all
  have KH1: "nr_host_pages_in_blk os1 < 2 ^ 32" using K1 KH by simp
  note rp = openssd_run_props [OF r KH1]
  have K2: "nr_host_pages_in_blk os2 = ?K" "nr_pages os2 = nr_pages os"
    using rp [of b1 l] K1 by simp_all
  have ok2: "cursor_ok os2 b2" using rp [of b2 l] c1(3) by simp
  have mono: "cursor os b1 + 1 \<le> cursor os2 b1" using rp [of b1 l] c1(1,2) nr by simp
  have KH2: "nr_host_pages_in_blk os2 < 2 ^ 32" using K2 KH by simp
  obtain osB where a2: "openssd_alloc_phys_addr os2 b2 = (P2, osB)"
    and u2: "openssd_update_map_generic osB l P2 (Some b2) = Inr os3"
    using w2 by (auto simp: openssd_write_def split: prod.splits sum.splits)
  note p2 = alloc_props [OF ok2 KH2 a2 n2]
  note fB = alloc_frame(1,2) [OF a2]
  have v2: "valid_block os2 b2" using v(2) K2 by (simp add: valid_block_def)
  have N2: "nr_pages os2 < 2 ^ 32" using N K2 by simp
  note A1 = addr_in_block [OF v(1) N p1(3)]
  note A2 = addr_in_block [OF v2 N2 p2(3)]
  have e1: "P1 = b1 * ?K + cursor os b1" using p1(1) A1(1) by simp
  have e2: "P2 = b2 * ?K + cursor os2 b2" using p2(1) A2(1) K2 by simp
  show "P2 \<noteq> P1"
  proof (cases "b1 = b2")
    case True
    then show ?thesis using e1 e2 mono by simp
  next
    case False
    have "b1 * ?K + cursor os b1 \<noteq> b2 * ?K + cursor os2 b2"
      using block_ranges_apart [OF p1(3) _ False, of "cursor os2 b2"] p2(3) K2 by simp
    then show ?thesis using e1 e2 by simp
  qed
  have lA: "l < nr_pages osA" "P1 < nr_pages osA" using l A1(2) e1 fA by simp_all
  show t1: "trans_map os1 l = \<lparr>addr = P1, block = Some b1\<rparr>"
    using update_generic_frame(6) [OF u1 lA] .
  show "(\<forall>b. Write l b \<notin> set es) \<longrightarrow> trans_map os2 l = \<lparr>addr = P1, block = Some b1\<rparr>"
    using rp [of b1 l] t1 by simp
  have lB: "l < nr_pages osB" "P2 < nr_pages osB" using l A2(2) e2 fB K2 by simp_all
  show "trans_map os3 l = \<lparr>addr = P2, block = Some b2\<rparr>"
    using update_generic_frame(6) [OF u2 lB] .
qed

lemma nvm_alloc_props:
  assumes ok: "nvm_cursor_ok s b" and K: "nr_pages_per_blk s < 2 ^ 32"
    and a: "nvm_alloc_phys_addr s b = (P, s')" and ne: "P \<noteq> LTOP_EMPTY"
  shows "P = (block_to_addr s b + next_page (blocks s b)) mod 2 ^ 64"
    and "next_page (blocks s' b) = next_page (blocks s b) + 1"
    and "next_page (blocks s b) < nr_pages_per_blk s"
    and "nvm_cursor_ok s' b"
proof -
  have nf: "\<not> nvm_block_is_full s (blocks s b)"
    using a ne by (auto simp: nvm_alloc_phys_addr_def Let_def split: if_splits)
  then have lt: "next_page (blocks s b) < nr_pages_per_blk s"
    using ok by (simp add: nvm_block_is_full_def nvm_cursor_ok_def)
  then show "next_page (blocks s b) < nr_pages_per_blk s" .
  have "next_page (blocks s b) + 1 < 2 ^ 32" using lt K by simp
  then have m: "Suc (next_page (blocks s b)) mod 4294967296 = Suc (next_page (blocks s b))"
    by simp
  from a nf lt
  show "P = (block_to_addr s b + next_page (blocks s b)) mod 2 ^ 64"
    and "next_page (blocks s' b) = next_page (blocks s b) + 1"
    and "nvm_cursor_ok s' b"
    by (auto simp: nvm_alloc_phys_addr_def Let_def nvm_cursor_ok_def m)
qed

lemma nvm_alloc_frame:
  assumes a: "nvm_alloc_phys_addr s b = (P, s')"
  shows "nr_host_pages_in_blk s' = nr_host_pages_in_blk s" and "nr_pages s' = nr_pages s"
    and "nr_pages_per_blk s' = nr_pages_per_blk s"
    and "trans_map s' = trans_map s"
    and "b' \<noteq> b \<Longrightarrow> blocks s' b' = blocks s b'"
  using a by (auto simp: nvm_alloc_phys_addr_def Let_def split: if_splits)

lemma nvm_alloc_cursor_mono:
  assumes ok: "nvm_cursor_ok s b'" and K: "nr_pages_per_blk s < 2 ^ 32"
    and a: "nvm_alloc_phys_addr s b = (P, s')"
  shows "nvm_cursor_ok s' b' \<and> next_page (blocks s b') \<le> next_page (blocks s' b')"
proof (cases "b' = b")
  case False
  from nvm_alloc_frame(3) [OF a] nvm_alloc_frame(5) [OF a False] ok show ?thesis
    by (simp add: nvm_cursor_ok_def)
next
  case True
  show ?thesis
  proof (cases "nvm_block_is_full s (blocks s b)")
    case True
    with a have "s' = s" by (simp add: nvm_alloc_phys_addr_def Let_def)
    with ok show ?thesis by simp
  next
    case nf: False
    then have lt: "next_page (blocks s b) < nr_pages_per_blk s"
      using ok True by (simp add: nvm_block_is_full_def nvm_cursor_ok_def)
    have "next_page (blocks s b) + 1 < 2 ^ 32" using lt K by simp
    then have m: "Suc (next_page (blocks s b)) mod 4294967296 = Suc (next_page (blocks s b))"
      by simp
    from a nf lt True show ?thesis
      by (auto simp: nvm_alloc_phys_addr_def Let_def nvm_cursor_ok_def m)
  qed
qed

lemma nvm_update_frame:
  assumes "nvm_update_map poison s l p = Inr s'"
  shows "next_page (blocks s' b) = next_page (blocks s b)"
    and "nr_host_pages_in_blk s' = nr_host_pages_in_blk s" and "nr_pages s' = nr_pages s"
    and "nr_pages_per_blk s' = nr_pages_per_blk s"
    and "l' \<noteq> l \<Longrightarrow> trans_map s' l' = trans_map s l'"
    and "trans_map s' l = \<lparr>addr = addr p, block = block p\<rparr>"
  using assms
  by (auto simp: nvm_update_map_def invalidate_block_page_def mark_invalid_def Let_def
      split: if_splits option.splits sum.splits)

lemma nvm_reset_frame:
  shows "nr_host_pages_in_blk (nvm_reset_block s b) = nr_host_pages_in_blk s"
    and "nr_pages (nvm_reset_block s b) = nr_pages s"
    and "nr_pages_per_blk (nvm_reset_block s b) = nr_pages_per_blk s"
    and "trans_map (nvm_reset_block s b) = trans_map s"
    and "b' \<noteq> b \<Longrightarrow> blocks (nvm_reset_block s b) b' = blocks s b'"
    and "next_page (blocks (nvm_reset_block s b) b) = 0"
  by (simp_all add: nvm_reset_block_def)

lemma nvm_step_props:
  assumes st: "nvm_step poison s e = Inr s'" and K: "nr_pages_per_blk s < 2 ^ 32"
  shows "nr_host_pages_in_blk s' = nr_host_pages_in_blk s" and "nr_pages s' = nr_pages s"
    and "nr_pages_per_blk s' = nr_pages_per_blk s"
    and "nvm_cursor_ok s b \<Longrightarrow> nvm_cursor_ok s' b"
    and "nvm_cursor_ok s b \<Longrightarrow> e \<noteq> Reset b \<Longrightarrow> next_page (blocks s b) \<le> next_page (blocks s' b)"
    and "(\<forall>b'. e \<noteq> Write l b') \<Longrightarrow> trans_map s' l = trans_map s l"
proof -
  have "nr_host_pages_in_blk s' = nr_host_pages_in_blk s \<and> nr_pages s' = nr_pages s
      \<and> nr_pages_per_blk s' = nr_pages_per_blk s
      \<and> (nvm_cursor_ok s b \<longrightarrow> nvm_cursor_ok s' b)
      \<and> (nvm_cursor_ok s b \<longrightarrow> e \<noteq> Reset b \<longrightarrow> next_page (blocks s b) \<le> next_page (blocks s' b))
      \<and> ((\<forall>b'. e \<noteq> Write l b') \<longrightarrow> trans_map s' l = trans_map s l)"
  proof (cases e)
    case (Write l0 b0)
    obtain P s1 where a: "nvm_alloc_phys_addr s b0 = (P, s1)"
      by (cases "nvm_alloc_phys_addr s b0")
    note af = nvm_alloc_frame [OF a]
    note am = nvm_alloc_cursor_mono [OF _ K a, of b]
    show ?thesis
    proof (cases "P = LTOP_EMPTY")
      case True
      with st Write a have "s' = s1" by (simp add: nvm_write_def)
      then show ?thesis using af(1,2,3,4) am by simp
    next
      case False
      with st Write a have u: "nvm_update_map poison s1 l0 \<lparr>addr = P, block = Some b0\<rparr> = Inr s'"
        by (auto simp: nvm_write_def split: sum.splits)
      note uf = nvm_update_frame [OF u]
      have "nvm_cursor_ok s b \<longrightarrow> nvm_cursor_ok s' b \<and> next_page (blocks s b) \<le> next_page (blocks s' b)"
        using am uf(1) [of b] uf(4) by (simp add: nvm_cursor_ok_def)
      moreover have "(\<forall>b'. e \<noteq> Write l b') \<longrightarrow> trans_map s' l = trans_map s l"
        using Write uf(5) [of l] af(4) by auto
      ultimately show ?thesis
        using af(1,2,3) uf(2,3,4) by simp
    qed
  next
    case (Reset b0)
    with st have s': "s' = nvm_reset_block s b0" by simp
    show ?thesis
    proof (cases "b = b0")
      case True
      then show ?thesis
        using Reset nvm_reset_frame(1,2,3,4,6) [where s = s and b = b0]
        by (simp add: s' nvm_cursor_ok_def)
    next
      case False
      then show ?thesis
        using Reset nvm_reset_frame(1,2,3,4) [where s = s and b = b0]
          nvm_reset_frame(5) [where s = s and b = b0 and b' = b]
        by (simp add: s' nvm_cursor_ok_def)
    qed
  qed
  then show "nr_host_pages_in_blk s' = nr_host_pages_in_blk s" and "nr_pages s' = nr_pages s"
    and "nr_pages_per_blk s' = nr_pages_per_blk s"
    and "nvm_cursor_ok s b \<Longrightarrow> nvm_cursor_ok s' b"
    and "nvm_cursor_ok s b \<Longrightarrow> e \<noteq> Reset b \<Longrightarrow> next_page (blocks s b) \<le> next_page (blocks s' b)"
    and "(\<forall>b'. e \<noteq> Write l b') \<Longrightarrow> trans_map s' l = trans_map s l"
    by simp_all
qed

lemma nvm_run_props:
  "nvm_run poison s es = Inr s' \<Longrightarrow> nr_pages_per_blk s < 2 ^ 32 \<Longrightarrow>
   nr_host_pages_in_blk s' = nr_host_pages_in_blk s \<and> nr_pages s' = nr_pages s
   \<and> nr_pages_per_blk s' = nr_pages_per_blk s
   \<and> (nvm_cursor_ok s b \<longrightarrow> nvm_cursor_ok s' b)
   \<and> (nvm_cursor_ok s b \<longrightarrow> Reset b \<notin> set es \<longrightarrow> next_page (blocks s b) \<le> next_page (blocks s' b))
   \<and> ((\<forall>b'. Write l b' \<notin> set es) \<longrightarrow> trans_map s' l = trans_map s l)"
proof (induction es arbitrary: s)
  case Nil
  then show ?case by simp
next
  case (Cons e es)
  from Cons.prems(1) obtain s1 where st: "nvm_step poison s e = Inr s1"
    and rn: "nvm_run poison s1 es = Inr s'"
    by (auto split: sum.splits)
  note sp = nvm_step_props [OF st Cons.prems(2)]
  have K1: "nr_pages_per_blk s1 < 2 ^ 32" using sp(3) Cons.prems(2) by simp
  note ih = Cons.IH [OF rn K1]
  show ?case
  proof (intro conjI impI)
    show "nr_host_pages_in_blk s' = nr_host_pages_in_blk s" using ih sp(1) by simp
    show "nr_pages s' = nr_pages s" using ih sp(2) by simp
    show "nr_pages_per_blk s' = nr_pages_per_blk s" using ih sp(3) by simp
    show "nvm_cursor_ok s' b" if "nvm_cursor_ok s b" using ih sp(4) [OF that] by simp
    show "next_page (blocks s b) \<le> next_page (blocks s' b)"
      if "nvm_cursor_ok s b" "Reset b \<notin> set (e # es)"
    proof -
      have "next_page (blocks s b) \<le> next_page (blocks s1 b)"
        using sp(5) [OF that(1)] that(2) by auto
      moreover have "next_page (blocks s1 b) \<le> next_page (blocks s' b)"
        using ih sp(4) [OF that(1)] that(2) by auto
      ultimately show ?thesis by simp
    qed
    show "trans_map s' l = trans_map s l" if "\<forall>b'. Write l b' \<notin> set (e # es)"
    proof -
      have "trans_map s1 l = trans_map s l" using sp(6) [of l] that by auto
      moreover have "trans_map s' l = trans_map s1 l" using ih that by auto
      ultimately show ?thesis by simp
    qed
  qed
qed

lemma nvm_out_of_place:
  assumes N: "nr_pages s < 2 ^ 32" and v: "valid_block s b1" "valid_block s b2"
    and KK: "nr_pages_per_blk s \<le> nr_host_pages_in_blk s"
    and ok: "nvm_cursor_ok s b1" "nvm_cursor_ok s b2"
    and w1: "nvm_write poison s l b1 = Inr (P1, s1)" and n1: "P1 \<noteq> LTOP_EMPTY"
    and r: "nvm_run poison s1 es = Inr s2" and nr: "Reset b1 \<notin> set es"
    and w2: "nvm_write poison s2 l b2 = Inr (P2, s3)" and n2: "P2 \<noteq> LTOP_EMPTY"
  shows "P2 \<noteq> P1"
    and "trans_map s1 l = \<lparr>addr = P1, block = Some b1\<rparr>"
    and "(\<forall>b. Write l b \<notin> set es) \<longrightarrow> trans_map s2 l = \<lparr>addr = P1, block = Some b1\<rparr>"
    and "trans_map s3 l = \<lparr>addr = P2, block = Some b2\<rparr>"
proof -
  let ?K = "nr_host_pages_in_blk s"
  have KH: "?K < 2 ^ 32" using valid_block_small [OF v(1) N] .
  then have K: "nr_pages_per_blk s < 2 ^ 32" using KK by simp
  obtain sA where a1: "nvm_alloc_phys_addr s b1 = (P1, sA)"
    and u1: "nvm_update_map poison sA l \<lparr>addr = P1, block = Some b1\<rparr> = Inr s1"
    using w1 n1 by (auto simp: nvm_write_def split: prod.splits sum.splits if_splits)
  note p1 = nvm_alloc_props [OF ok(1) K a1 n1]
  note fA = nvm_alloc_frame(1,2,3) [OF a1]
  have okA2: "nvm_cursor_ok sA b2" using nvm_alloc_cursor_mono [OF ok(2) K a1] by simp
  note f1 = nvm_update_frame(2,3,4) [OF u1]
  have c1: "next_page (blocks s1 b1) = next_page (blocks s b1) + 1"
    "nvm_cursor_ok s1 b1" "nvm_cursor_ok s1 b2"
    using nvm_update_frame(1) [OF u1] f1 p1(2,4) okA2 by (simp_all add: nvm_cursor_ok_def)
  have K1: "nr_host_pages_in_blk s1 = ?K" "nr_pages s1 = nr_pages s"
    "nr_pages_per_blk s1 = nr_pages_per_blk s"
    using fA f1 by simp_all
  have KH1: "nr_pages_per_blk s1 < 2 ^ 32" using K1 K by simp
  note rp = nvm_run_props [OF r KH1]
  have K2: "nr_host_pages_in_blk s2 = ?K" "nr_pages s2 = nr_pages s"
    "nr_pages_per_blk s2 = nr_pages_per_blk s"
    using rp [of b1 l] K1 by simp_all
  have ok2: "nvm_cursor_ok s2 b2" using rp [of b2 l] c1(3) by simp
  have mono: "next_page (blocks s b1) + 1 \<le> next_page (blocks s2 b1)"
    using rp [of b1 l] c1(1,2) nr by simp
  have KH2: "nr_pages_per_blk s2 < 2 ^ 32" using K2 K by simp
  obtain sB where a2: "nvm_alloc_phys_addr s2 b2 = (P2, sB)"
    and u2: "nvm_update_map poison sB l \<lparr>addr = P2, block = Some b2\<rparr> = Inr s3"
    using w2 n2 by (auto simp: nvm_write_def split: prod.splits sum.splits if_splits)
  note p2 = nvm_alloc_props [OF ok2 KH2 a2 n2]
  have v2: "valid_block s2 b2" using v(2) K2 by (simp add: valid_block_def)
  have N2: "nr_pages s2 < 2 ^ 32" using N K2 by simp
  have lt1: "next_page (blocks s b1) < ?K" using p1(3) KK by simp
  have lt2: "next_page (blocks s2 b2) < nr_host_pages_in_blk s2" using p2(3) KK K2 by simp
  note A1 = addr_in_block [OF v(1) N lt1]
  note A2 = addr_in_block [OF v2 N2 lt2]
  have e1: "P1 = b1 * ?K + next_page (blocks s b1)" using p1(1) A1(1) by simp
  have e2: "P2 = b2 * ?K + next_page (blocks s2 b2)" using p2(1) A2(1) K2 by simp
  show "P2 \<noteq> P1"
  proof (cases "b1 = b2")
    case True
    then show ?thesis using e1 e2 mono by simp
  next
    case False
    have "b1 * ?K + next_page (blocks s b1) \<noteq> b2 * ?K + next_page (blocks s2 b2)"
      using block_ranges_apart [OF lt1 _ False, of "next_page (blocks s2 b2)"] lt2 K2 by simp
    then show ?thesis using e1 e2 by simp
  qed
  show t1: "trans_map s1 l = \<lparr>addr = P1, block = Some b1\<rparr>"
    using nvm_update_frame(6) [OF u1] by simp
  show "(\<forall>b. Write l b \<notin> set es) \<longrightarrow> trans_map s2 l = \<lparr>addr = P1, block = Some b1\<rparr>"
    using rp [of b1 l] t1 by simp
  show "trans_map s3 l = \<lparr>addr = P2, block = Some b2\<rparr>"
    using nvm_update_frame(6) [OF u2] by simp
qed

text \<open>
  C3. Take a device of fewer than \<open>2 ^ 32\<close> pages, two blocks \<open>b1\<close> and \<open>b2\<close> (possibly the
  same) that lie inside the device and whose cursors are inside the block, and a write of
  logical page \<open>l\<close> that takes its page \<open>P1\<close> from \<open>b1\<close>. After any sequence of other
  writes and of resets of blocks other than \<open>b1\<close>, a write of \<open>l\<close> that takes its page
  \<open>P2\<close> from \<open>b2\<close> gets \<open>P2 \<noteq> P1\<close>; the map sends \<open>l\<close> to \<open>P1\<close> after the first write (and
  until the second one when no write of \<open>l\<close> comes in between) and to \<open>P2\<close> after the
  second. This holds for the allocation and map update of the device-mapper driver
  and for those of the request-based driver.
\<close>

theorem out_of_place_writes:
  assumes "nr_pages os < 2 ^ 32" and "valid_block os b1" and "valid_block os b2"
    and "Reset b1 \<notin> set es"
  shows "(cursor_ok os b1 \<and> cursor_ok os b2 \<and> l < nr_pages os
            \<and> openssd_write os l b1 = Inr (P1, os1) \<and> P1 \<noteq> LTOP_EMPTY
            \<and> openssd_run os1 es = Inr os2
            \<and> openssd_write os2 l b2 = Inr (P2, os3) \<and> P2 \<noteq> LTOP_EMPTY
          \<longrightarrow> P2 \<noteq> P1
            \<and> trans_map os1 l = \<lparr>addr = P1, block = Some b1\<rparr>
            \<and> ((\<forall>b. Write l b \<notin> set es) \<longrightarrow> trans_map os2 l = \<lparr>addr = P1, block = Some b1\<rparr>)
            \<and> trans_map os3 l = \<lparr>addr = P2, block = Some b2\<rparr>)
       \<and> (nr_pages_per_blk os \<le> nr_host_pages_in_blk os
            \<and> nvm_cursor_ok os b1 \<and> nvm_cursor_ok os b2
            \<and> nvm_write poison os l b1 = Inr (P1, os1) \<and> P1 \<noteq> LTOP_EMPTY
            \<and> nvm_run poison os1 es = Inr os2
            \<and> nvm_write poison os2 l b2 = Inr (P2, os3) \<and> P2 \<noteq> LTOP_EMPTY
          \<longrightarrow> P2 \<noteq> P1
            \<and> trans_map os1 l = \<lparr>addr = P1, block = Some b1\<rparr>
            \<and> ((\<forall>b. Write l b \<notin> set es) \<longrightarrow> trans_map os2 l = \<lparr>addr = P1, block = Some b1\<rparr>)
            \<and> trans_map os3 l = \<lparr>addr = P2, block = Some b2\<rparr>)"
proof (intro conjI impI; elim conjE)
  assume a: "cursor_ok os b1" "cursor_ok os b2" "l < nr_pages os"
    "openssd_write os l b1 = Inr (P1, os1)" "P1 \<noteq> LTOP_EMPTY"
    "openssd_run os1 es = Inr os2"
    "openssd_write os2 l b2 = Inr (P2, os3)" "P2 \<noteq> LTOP_EMPTY"
  note r = openssd_out_of_place [OF assms(1,2,3) a(1,2,3,4,5,6) assms(4) a(7,8)]
  show "P2 \<noteq> P1" by (rule r(1))
  show "trans_map os1 l = \<lparr>addr = P1, block = Some b1\<rparr>" by (rule r(2))
  show "trans_map os3 l = \<lparr>addr = P2, block = Some b2\<rparr>" by (rule r(4))
  show "trans_map os2 l = \<lparr>addr = P1, block = Some b1\<rparr>" if "\<forall>b. Write l b \<notin> set es"
    using r(3) that by simp
next
  assume a: "nr_pages_per_blk os \<le> nr_host_pages_in_blk os"
    "nvm_cursor_ok os b1" "nvm_cursor_ok os b2"
    "nvm_write poison os l b1 = Inr (P1, os1)" "P1 \<noteq> LTOP_EMPTY"
    "nvm_run poison os1 es = Inr os2"
    "nvm_write poison os2 l b2 = Inr (P2, os3)" "P2 \<noteq> LTOP_EMPTY"
  note r = nvm_out_of_place [OF assms(1,2,3) a(1,2,3,4,5,6) assms(4) a(7,8)]
  show "P2 \<noteq> P1" by (rule r(1))
  show "trans_map os1 l = \<lparr>addr = P1, block = Some b1\<rparr>" by (rule r(2))
  show "trans_map os3 l = \<lparr>addr = P2, block = Some b2\<rparr>" by (rule r(4))
  show "trans_map os2 l = \<lparr>addr = P1, block = Some b1\<rparr>" if "\<forall>b. Write l b \<notin> set es"
    using r(3) that by simp
qed

text \<open>The example run: the first write gets page 8, the second page 10.\<close>

lemmas write_eval = openssd_write_def openssd_alloc_phys_addr_def openssd_alloc_phys_addr_fast_def
  openssd_update_map_generic_def mark_invalid_def block_is_full_def block_to_addr_def
  openssd_reset_block_def bitmap_full_def bitmap_zero_def
  nvm_write_def nvm_alloc_phys_addr_def nvm_update_map_def invalidate_block_page_def
  nvm_block_is_full_def nvm_reset_block_def stor0_def blk0_def const_defs Let_def

lemma w1_eval: "openssd_write stor0 4 2 = Inr (8, stor_w1)"
  unfolding stor_w1_def by (simp add: write_eval)

lemma w2_eval: "openssd_run stor_w1 [Write 5 2, Write 6 3, Reset 3] = Inr stor_w2"
  unfolding stor_w2_def stor_w1_def by (simp add: write_eval)

lemma w3_eval: "openssd_write stor_w2 4 2 = Inr (10, stor_w3)"
  unfolding stor_w3_def stor_w2_def stor_w1_def by (simp add: write_eval)

lemma n1_eval: "nvm_write 0xD3ADB33F stor0 4 2 = Inr (8, stor_n1)"
  unfolding stor_n1_def by (simp add: write_eval)

lemma n2_eval: "nvm_run 0xD3ADB33F stor_n1 [Write 5 2, Write 6 3, Reset 3] = Inr stor_n2"
  unfolding stor_n2_def stor_n1_def by (simp add: write_eval)

lemma n3_eval: "nvm_write 0xD3ADB33F stor_n2 4 2 = Inr (10, stor_n3)"
  unfolding stor_n3_def stor_n2_def stor_n1_def by (simp add: write_eval)

theorem out_of_place_writes_witness:
  "nr_pages stor0 < 2 ^ 32 \<and> valid_block stor0 2
   \<and> Reset 2 \<notin> set [Write 5 2, Write 6 3, Reset 3]
   \<and> (\<forall>b. Write 4 b \<notin> set [Write 5 2, Write 6 3, Reset 3])
   \<and> cursor_ok stor0 2 \<and> 4 < nr_pages stor0
   \<and> openssd_write stor0 4 2 = Inr (8, stor_w1) \<and> 8 \<noteq> LTOP_EMPTY
   \<and> openssd_run stor_w1 [Write 5 2, Write 6 3, Reset 3] = Inr stor_w2
   \<and> openssd_write stor_w2 4 2 = Inr (10, stor_w3) \<and> 10 \<noteq> LTOP_EMPTY
   \<and> (10::nat) \<noteq> 8
   \<and> trans_map stor_w1 4 = \<lparr>addr = 8, block = Some 2\<rparr>
   \<and> trans_map stor_w2 4 = \<lparr>addr = 8, block = Some 2\<rparr>
   \<and> trans_map stor_w3 4 = \<lparr>addr = 10, block = Some 2\<rparr>
   \<and> nr_pages_per_blk stor0 \<le> nr_host_pages_in_blk stor0 \<and> nvm_cursor_ok stor0 2
   \<and> nvm_write 0xD3ADB33F stor0 4 2 = Inr (8, stor_n1)
   \<and> nvm_run 0xD3ADB33F stor_n1 [Write 5 2, Write 6 3, Reset 3] = Inr stor_n2
   \<and> nvm_write 0xD3ADB33F stor_n2 4 2 = Inr (10, stor_n3)
   \<and> trans_map stor_n1 4 = \<lparr>addr = 8, block = Some 2\<rparr>
   \<and> trans_map stor_n2 4 = \<lparr>addr = 8, block = Some 2\<rparr>
   \<and> trans_map stor_n3 4 = \<lparr>addr = 10, block = Some 2\<rparr>"
proof -
  let ?es = "[Write 5 2, Write 6 3, Reset 3]"
  have h: "nr_pages stor0 < 2 ^ 32" "valid_block stor0 2" "Reset 2 \<notin> set ?es"
    and c: "\<forall>b. Write 4 b \<notin> set ?es" "cursor_ok stor0 2" "4 < nr_pages stor0"
    "nr_pages_per_blk stor0 \<le> nr_host_pages_in_blk stor0" "nvm_cursor_ok stor0 2"
    and e: "8 \<noteq> LTOP_EMPTY" "10 \<noteq> LTOP_EMPTY"
    by (simp_all add: valid_block_def cursor_ok_def cursor_def nvm_cursor_ok_def stor0_def
        blk0_def const_defs)
  note t = out_of_place_writes [OF h(1) h(2) h(2) h(3), where l = 4 and ?P1.0 = 8 and ?P2.0 = 10
      and poison = "0xD3ADB33F"]
  note g = t [where ?os1.0 = stor_w1 and ?os2.0 = stor_w2 and ?os3.0 = stor_w3,
      THEN conjunct1, THEN mp,
      OF conjI [OF c(2) conjI [OF c(2) conjI [OF c(3) conjI [OF w1_eval conjI [OF e(1)
        conjI [OF w2_eval conjI [OF w3_eval e(2)]]]]]]]]
  note n = t [where ?os1.0 = stor_n1 and ?os2.0 = stor_n2 and ?os3.0 = stor_n3,
      THEN conjunct2, THEN mp,
      OF conjI [OF c(4) conjI [OF c(5) conjI [OF c(5) conjI [OF n1_eval conjI [OF e(1)
        conjI [OF n2_eval conjI [OF n3_eval e(2)]]]]]]]]
  from g c(1) have g': "(10::nat) \<noteq> 8" "trans_map stor_w1 4 = \<lparr>addr = 8, block = Some 2\<rparr>"
    "trans_map stor_w2 4 = \<lparr>addr = 8, block = Some 2\<rparr>"
    "trans_map stor_w3 4 = \<lparr>addr = 10, block = Some 2\<rparr>"
    by blast+
  from n c(1) have n': "trans_map stor_n1 4 = \<lparr>addr = 8, block = Some 2\<rparr>"
    "trans_map stor_n2 4 = \<lparr>addr = 8, block = Some 2\<rparr>"
    "trans_map stor_n3 4 = \<lparr>addr = 10, block = Some 2\<rparr>"
    by blast+
  show ?thesis
    by (intro conjI h c e g' n' w1_eval w2_eval w3_eval n1_eval n2_eval n3_eval)
qed

section \<open>The mapping invariant\<close>













































end
